theory Spec2Isabelle
  imports Complex_Main
begin

section \<open>LoRaSimMac: the gateway collision model and the node MAC procedure\<close>

text \<open>
  A shallow embedding of \<^verbatim>\<open>loraDir_mac.py\<close>. Python's unbounded integers are \<open>int\<close>.
  Python's floats (times in milliseconds, RSSI in dBm, the 2.4 GHz bandwidths) are
  modelled as exact \<open>real\<close> numbers: rounding and overflow of IEEE doubles are outside
  the model. Every exception the modelled code can raise is a value of \<open>error\<close>.
\<close>

subsection \<open>Errors\<close>

datatype error = ZeroDivisionError | IndexError | ValueError

definition bind :: "error + 'a \<Rightarrow> ('a \<Rightarrow> error + 'b) \<Rightarrow> error + 'b" where
  "bind r f = (case r of Inl e \<Rightarrow> Inl e | Inr x \<Rightarrow> f x)"

lemma bind_Inr [simp]: "bind (Inr x) f = f x"
  by (simp add: bind_def)

lemma bind_Inl [simp]: "bind (Inl e) f = Inl e"
  by (simp add: bind_def)

lemma bind_eq_Inr: "bind r f = Inr y \<longleftrightarrow> (\<exists>x. r = Inr x \<and> f x = Inr y)"
  by (cases r) simp_all

subsection \<open>Module-level settings\<close>

text \<open>
  The globals the modelled functions read. Where a global and a node attribute carry the
  same name in the source (\<^verbatim>\<open>n_retry\<close>, \<^verbatim>\<open>n_retry_rts\<close>, \<^verbatim>\<open>Wbusy_BE\<close>, \<^verbatim>\<open>W2\<close>,
  \<^verbatim>\<open>P\<close>, and \<^verbatim>\<open>experiment\<close>, a keyword here), the global is prefixed with \<open>cfg_\<close> and the attribute keeps the name.
\<close>

record config =
  lora24GHz :: bool
  full_collision :: bool
  CA :: bool
  CA1 :: bool
  CA2 :: bool
  check_busy :: bool
  check_busy_rts :: bool
  CCA_prob :: int
  Wbusy_min :: int
  cfg_Wbusy_BE :: int
  Wbusy_maxBE :: int
  Wbusy_exp_backoff :: bool
  Wbusy_add_max_toa :: bool
  cfg_n_retry :: int
  cfg_n_retry_rts :: int
  cfg_P :: int
  WL :: int
  cfg_W2 :: int
  W3 :: int
  Wnav :: int
  W2afterNAV :: int
  max_payload_size :: int
  cfg_experiment :: int
  targetSentPacket :: int

text \<open>\<^verbatim>\<open>maxBSReceives = 8\<close>: the number of packets the base station can receive at once.\<close>

definition maxBSReceives :: int where
  "maxBSReceives = 8"

subsection \<open>Time on air\<close>

text \<open>
  \<^verbatim>\<open>airtime(sf,cr,pl,bw)\<close>. The two divisions raise \<^verbatim>\<open>ZeroDivisionError\<close> on a zero
  divisor; \<^verbatim>\<open>math.ceil\<close> returns a float, here the integer injected back into \<open>real\<close>.
\<close>

definition airtime :: "config \<Rightarrow> int \<Rightarrow> int \<Rightarrow> int \<Rightarrow> real \<Rightarrow> error + real" where
  "airtime g sf cr pl bw =
    (if lora24GHz g then
       (let Npream = (12::real);
            H = (1::int);
            DE = (if sf > 10 then 1 else 0 :: int) in
        if bw = 0 then Inl ZeroDivisionError
        else
          let Tsym = power_int 2 sf / bw;
              Tpream = (if sf < 7 then (Npream + 6.25) * Tsym else (Npream + 4.25) * Tsym) in
          if 4 * (sf - 2 * DE) = 0 then Inl ZeroDivisionError
          else
            let payloadSymbNB =
                  (if sf \<ge> 7
                   then 8 + real_of_int \<lceil>max (real_of_int (8 * pl + 16 - 4 * sf + 8 + 20 * H)) 0
                                           / real_of_int (4 * (sf - 2 * DE))\<rceil> * real_of_int (cr + 4)
                   else 8 + real_of_int \<lceil>max (real_of_int (8 * pl + 16 - 4 * sf + 20 * H)) 0
                                           / real_of_int (4 * (sf - 2 * DE))\<rceil> * real_of_int (cr + 4));
                Tpayload = payloadSymbNB * Tsym in
            Inr (Tpream + Tpayload))
     else
       (let Npream = (8::real);
            DE = (if bw = 125 \<and> sf \<in> {11, 12} then 1 else 0 :: int);
            H = (if sf = 6 then 1 else 0 :: int) in
        if bw = 0 then Inl ZeroDivisionError
        else
          let Tsym = power_int 2 sf / bw;
              Tpream = (Npream + 4.25) * Tsym in
          if 4 * (sf - 2 * DE) = 0 then Inl ZeroDivisionError
          else
            let payloadSymbNB =
                  8 + max (real_of_int \<lceil>real_of_int (8 * pl - 4 * sf + 28 + 16 - 20 * H)
                                           / real_of_int (4 * (sf - 2 * DE))\<rceil> * real_of_int (cr + 4)) 0;
                Tpayload = payloadSymbNB * Tsym in
            Inr (Tpream + Tpayload)))"

text \<open>
  The sub-GHz time on air as the specification words it: \<open>Tsym = 2^SF / BW\<close>,
  \<open>Tpream = (8 + 4.25) Tsym\<close>, implicit header \<open>H\<close> only for SF 6, low-data-rate
  optimisation \<open>DE\<close> for BW 125 with SF 11 or 12, and
  \<open>payloadSymbNB = 8 + max(0, ceil((8 pl - 4 SF + 28 + 16 - 20 H) / (4 (SF - 2 DE))) (CR + 4))\<close>.
\<close>

definition airtime_spec :: "int \<Rightarrow> int \<Rightarrow> int \<Rightarrow> real \<Rightarrow> real" where
  "airtime_spec SF CR_ix len BW =
    (let Tsym = 2 ^ nat SF / BW;
         Tpre = (8 + 4.25) * Tsym;
         H = (if SF = 6 then 1 else 0 :: real);
         DE = (if BW = 125 \<and> (SF = 11 \<or> SF = 12) then 1 else 0 :: real);
         payloadSymbNB =
           8 + max 0 (real_of_int \<lceil>(8 * real_of_int len - 4 * real_of_int SF + 28 + 16 - 20 * H)
                                      / (4 * (real_of_int SF - 2 * DE))\<rceil> * (real_of_int CR_ix + 4))
     in Tpre + payloadSymbNB * Tsym)"

subsection \<open>Packets\<close>

datatype ptype = dataPacketType | rtsPacketType

text \<open>
  \<^verbatim>\<open>class myPacket\<close>: the attributes that the collision checks and the MAC procedure
  read or write. \<open>p_nodeid\<close> is \<^verbatim>\<open>packet.nodeid\<close>. \<open>collided\<close> and \<open>processed\<close> are the
  source's 0/1 integers.
\<close>

record myPacket =
  p_nodeid :: int
  sf :: int
  bw :: real
  cr :: int
  freq :: int
  rssi :: real
  pl :: int
  data_len :: int
  Tpream :: real
  rectime :: real
  ptype :: ptype
  collided :: int
  processed :: int
  lost :: bool
  addTime :: real

text \<open>\<^verbatim>\<open>myPacket.setPacketType\<close>: re-derive \<^verbatim>\<open>pl\<close> and \<^verbatim>\<open>rectime\<close> from the type.\<close>

definition setPacketType :: "config \<Rightarrow> ptype \<Rightarrow> myPacket \<Rightarrow> error + myPacket" where
  "setPacketType g t p =
    (let p1 = p\<lparr>ptype := t\<rparr> in
     if t = rtsPacketType then
       (let p2 = p1\<lparr>pl := 5\<rparr> in
        bind (airtime g (sf p2) (cr p2) (pl p2) (bw p2)) (\<lambda>r. Inr (p2\<lparr>rectime := r\<rparr>)))
     else
       (let p2 = p1\<lparr>pl := data_len p1\<rparr> in
        bind (airtime g (sf p2) (cr p2) (pl p2) (bw p2)) (\<lambda>r. Inr (p2\<lparr>rectime := r\<rparr>))))"

text \<open>
  \<^verbatim>\<open>random.choice(seq)\<close> on a non-empty list; \<open>k\<close> is what the generator yields.
\<close>

definition choice :: "'a list \<Rightarrow> int \<Rightarrow> 'a" where
  "choice xs k = xs ! (nat k mod length xs)"

text \<open>
  The carrier that \<^verbatim>\<open>myPacket.__init__\<close> leaves in \<^verbatim>\<open>self.freq\<close>. The random offset of
  61 Hz steps that it first adds to the lower bound is overwritten by the statement that
  follows: experiment 1 chooses one of three carriers, every other experiment takes the
  lower bound.
\<close>

definition carrier :: "config \<Rightarrow> int \<Rightarrow> int" where
  "carrier g k =
    (if cfg_experiment g = 1 then
       (if lora24GHz g then choice [2403000000, 2425000000, 2479000000] k
        else choice [860000000, 864000000, 868000000] k)
     else
       (if lora24GHz g then 2403000000 else 860000000))"

text \<open>
  The tail of \<^verbatim>\<open>myPacket.__init__\<close>. The radio settings (\<^verbatim>\<open>sf\<close>, \<^verbatim>\<open>bw\<close>, \<^verbatim>\<open>cr\<close>) and the
  received power come from the experiment preset, the random generator and the path-loss
  formula; they are arguments here, and so is the value \<open>k\<close> that the generator yields
  for the choice of the carrier. What the constructor then fixes is modelled as written:
  \<^verbatim>\<open>pl = data_len = plen\<close>, the preamble duration, the carrier, \<^verbatim>\<open>rectime\<close> from
  \<^verbatim>\<open>airtime\<close>, type DATA, flags cleared. \<^verbatim>\<open>lost\<close> and \<^verbatim>\<open>addTime\<close> are first assigned by
  \<^verbatim>\<open>transmit\<close>; they start here as \<open>False\<close> and \<open>0\<close>.
\<close>

definition myPacket_init ::
  "config \<Rightarrow> int \<Rightarrow> int \<Rightarrow> int \<Rightarrow> real \<Rightarrow> int \<Rightarrow> int \<Rightarrow> real \<Rightarrow> error + myPacket" where
  "myPacket_init g nid plen sf0 bw0 cr0 k prx =
    (if bw0 = 0 then Inl ZeroDivisionError
     else
       let symTime = power_int 2 sf0 / bw0;
           tp = (if lora24GHz g
                 then (if sf0 < 7 then (12 + 6.25) * symTime else (12 + 4.25) * symTime)
                 else (8 + 4.25) * symTime) in
       bind (airtime g sf0 cr0 plen bw0) (\<lambda>r.
         Inr \<lparr>p_nodeid = nid, sf = sf0, bw = bw0, cr = cr0, freq = carrier g k, rssi = prx,
              pl = plen, data_len = plen, Tpream = tp, rectime = r, ptype = dataPacketType,
              collided = 0, processed = 0, lost = False, addTime = 0\<rparr>))"

text \<open>
  The states a packet object goes through: it is constructed, \<^verbatim>\<open>setPacketType\<close> retypes
  it, and \<^verbatim>\<open>checkcollision\<close> and \<^verbatim>\<open>transmit\<close> assign its flags and its arrival time.
  Nothing else in the program writes to a packet.
\<close>

inductive packet_state :: "config \<Rightarrow> myPacket \<Rightarrow> bool" for g :: config where
  created: "myPacket_init g nid plen s b c f prx = Inr p \<Longrightarrow> packet_state g p"
| retyped: "packet_state g p \<Longrightarrow> setPacketType g t p = Inr q \<Longrightarrow> packet_state g q"
| flagged: "packet_state g p \<Longrightarrow>
            packet_state g (p\<lparr>collided := c, processed := d, lost := l, addTime := a\<rparr>)"

subsection \<open>Pairwise collision checks\<close>

text \<open>\<^verbatim>\<open>frequencyCollision(p1,p2)\<close>, with the comparisons as the source writes them.\<close>

definition frequencyCollision :: "myPacket \<Rightarrow> myPacket \<Rightarrow> bool" where
  "frequencyCollision p1 p2 =
    (if \<bar>freq p1 - freq p2\<bar> \<le> 120 \<and> (bw p1 = 500 \<or> freq p2 = 500) then True
     else if \<bar>freq p1 - freq p2\<bar> \<le> 60 \<and> (bw p1 = 250 \<or> freq p2 = 250) then True
     else if \<bar>freq p1 - freq p2\<bar> \<le> 30 then True
     else False)"



definition sfCollision :: "myPacket \<Rightarrow> myPacket \<Rightarrow> bool" where
  "sfCollision p1 p2 = (sf p1 = sf p2)"

text \<open>
  \<^verbatim>\<open>powerCollision\<close> returns a tuple of packet objects: both, the first alone or the
  second alone.
\<close>

datatype casualties = Both | First | Second

definition powerCollision :: "myPacket \<Rightarrow> myPacket \<Rightarrow> casualties" where
  "powerCollision p1 p2 =
    (let powerThreshold = (6::real) in
     if \<bar>rssi p1 - rssi p2\<bar> < powerThreshold then Both
     else if rssi p1 - rssi p2 < powerThreshold then First
     else Second)"

text \<open>\<^verbatim>\<open>timingCollision(p1,p2)\<close> at clock value \<open>now\<close> (\<^verbatim>\<open>env.now\<close>).\<close>

definition timingCollision :: "real \<Rightarrow> myPacket \<Rightarrow> myPacket \<Rightarrow> error + bool" where
  "timingCollision now p1 p2 =
    (let Npream = (8::real) in
     if bw p1 = 0 then Inl ZeroDivisionError
     else
       let Tpreamb = power_int 2 (sf p1) / (1 * bw p1) * (Npream - 5);
           p2_end = addTime p2 + rectime p2;
           p1_cs = now + Tpreamb in
       if p1_cs < p2_end then Inr True else Inr False)"

subsection \<open>Nodes\<close>

text \<open>The ten values of \<^verbatim>\<open>node.ca_state\<close>, under the source's names.\<close>

datatype ca_state =
  schedule_tx | want_transmit | start_CA | start_phase1_listen | start_phase2_backoff
  | start_phase2_rts | start_phase2_listen | start_phase3_backoff | start_phase3_transmit
  | start_nav

text \<open>
  \<^verbatim>\<open>class myNode\<close>: identity, the owned packet, the MAC state, the reception hints that
  \<^verbatim>\<open>checkcollision\<close> writes, the retry state and the counters of the carrier sense.
  Position, traffic period and the accumulators that only the final report reads
  (\<^verbatim>\<open>total_listen_time\<close>, \<^verbatim>\<open>latency\<close>, \<^verbatim>\<open>total_retry\<close>, \<^verbatim>\<open>total_retry_rts\<close>,
  \<^verbatim>\<open>n_receive_nav_*\<close>) are left out: no modelled statement reads them and none of
  their updates can raise.
\<close>

record myNode =
  nodeid :: int
  packet :: myPacket
  ca_state :: ca_state
  want_transmit_time :: real
  ca_listen_start_time :: real
  ca_listen_end_time :: real
  P :: int
  my_P :: int
  backoff :: int
  receive_rts :: bool
  receive_rts_time :: real
  receive_rts_from :: int
  receive_data :: bool
  receive_data_time :: real
  receive_data_from :: int
  nav :: int
  cca :: bool
  n_cca :: int
  n_busy_rts :: int
  n_busy_rts_p1 :: int
  n_busy_data :: int
  n_retry :: int
  retry_bin :: "int list"
  n_retry_rts :: int
  retry_rts_bin :: "int list"
  n_aborted :: int
  n_data_sent :: int
  n_rts_sent :: int
  cycle :: int
  W2 :: int
  Wbusy_BE :: int

text \<open>
  \<^verbatim>\<open>myNode.__init__\<close>, given the packet it has constructed. \<^verbatim>\<open>range(n)\<close> is empty for
  \<open>n \<le> 0\<close>, so the bins are \<open>replicate (nat n) 0\<close>.
\<close>

definition myNode_init :: "config \<Rightarrow> int \<Rightarrow> myPacket \<Rightarrow> myNode" where
  "myNode_init g nid pk =
    \<lparr>nodeid = nid, packet = pk, ca_state = schedule_tx, want_transmit_time = 0,
     ca_listen_start_time = 0, ca_listen_end_time = 0, P = cfg_P g, my_P = 0, backoff = 0,
     receive_rts = False, receive_rts_time = 0, receive_rts_from = - 1,
     receive_data = False, receive_data_time = 0, receive_data_from = - 1,
     nav = 0, cca = False, n_cca = 0, n_busy_rts = 0, n_busy_rts_p1 = 0, n_busy_data = 0,
     n_retry = cfg_n_retry g, retry_bin = replicate (nat (cfg_n_retry g)) 0,
     n_retry_rts = (if cfg_n_retry_rts g > 0 then cfg_n_retry_rts g else 1),
     retry_rts_bin = replicate (nat (cfg_n_retry_rts g + 1)) 0,
     n_aborted = 0, n_data_sent = 0, n_rts_sent = 0, cycle = 0, W2 = cfg_W2 g,
     Wbusy_BE = cfg_Wbusy_BE g\<rparr>"

subsection \<open>The gateway: \<^verbatim>\<open>checkcollision\<close>\<close>

text \<open>
  The node objects live in the list \<^verbatim>\<open>nodes\<close>; \<^verbatim>\<open>packetsAtBS\<close> holds references to some
  of them, modelled as positions in that list, so that a write through one reference is
  seen through the other. The argument \<^verbatim>\<open>packet\<close> of \<^verbatim>\<open>checkcollision\<close> is the packet
  object of the transmitting node, given here by that node's position \<open>i\<close>.
\<close>

definition processing :: "myNode list \<Rightarrow> nat list \<Rightarrow> int" where
  "processing ns bs = int (length (filter (\<lambda>k. processed (packet (ns ! k)) = 1) bs))"

definition set_processed :: "nat \<Rightarrow> int \<Rightarrow> myNode list \<Rightarrow> myNode list" where
  "set_processed i v ns = ns[i := (ns ! i)\<lparr>packet := (packet (ns ! i))\<lparr>processed := v\<rparr>\<rparr>]"

definition set_collided :: "nat \<Rightarrow> int \<Rightarrow> myNode list \<Rightarrow> myNode list" where
  "set_collided i v ns = ns[i := (ns ! i)\<lparr>packet := (packet (ns ! i))\<lparr>collided := v\<rparr>\<rparr>]"

text \<open>The demodulator check at the head of \<^verbatim>\<open>checkcollision\<close>.\<close>

definition admit :: "nat \<Rightarrow> myNode list \<Rightarrow> nat list \<Rightarrow> myNode list" where
  "admit i ns bs =
    (if processing ns bs > maxBSReceives then set_processed i 0 ns else set_processed i 1 ns)"

text \<open>
  One iteration of \<^verbatim>\<open>for other in packetsAtBS\<close>, on the collision flag \<^verbatim>\<open>col\<close> and the
  node objects. \<^verbatim>\<open>p == packet\<close> compares object identity: it holds for the first
  element of the tuple that \<^verbatim>\<open>powerCollision\<close> returns, and for the second only when
  \<^verbatim>\<open>other\<close> is the transmitting node itself.
\<close>

definition check_other ::
  "config \<Rightarrow> real \<Rightarrow> nat \<Rightarrow> nat \<Rightarrow> int \<times> myNode list \<Rightarrow> error + int \<times> myNode list" where
  "check_other g now i k acc =
    (let col = fst acc; ns = snd acc; pk = packet (ns ! i); other = ns ! k in
     if nodeid other \<noteq> p_nodeid pk then
       if frequencyCollision pk (packet other) \<and> sfCollision pk (packet other) then
         if full_collision g then
           bind (timingCollision now pk (packet other)) (\<lambda>t.
             if t then
               (case powerCollision pk (packet other) of
                  Both \<Rightarrow> Inr (1, set_collided k 1 (set_collided i 1 ns))
                | First \<Rightarrow> Inr (1, set_collided i 1 ns)
                | Second \<Rightarrow> Inr (if k = i then 1 else col, set_collided k 1 ns))
             else Inr (col, ns))
         else Inr (1, set_collided k 1 (set_collided i 1 ns))
       else Inr (col, ns)
     else Inr (col, ns))"

fun check_others ::
  "config \<Rightarrow> real \<Rightarrow> nat \<Rightarrow> nat list \<Rightarrow> int \<times> myNode list \<Rightarrow> error + int \<times> myNode list" where
  "check_others g now i [] acc = Inr acc"
| "check_others g now i (k # ks) acc =
     bind (check_other g now i k acc) (check_others g now i ks)"

text \<open>
  The correction of earlier decisions: the body of the inner loop for one node, given
  \<^verbatim>\<open>other.nodeid\<close> and the truth value of \<^verbatim>\<open>other.packet.collided\<close>. The loops write
  only \<^verbatim>\<open>receive_rts\<close> and \<^verbatim>\<open>receive_data\<close>, so what they read of \<^verbatim>\<open>other\<close> does not
  change while they run and the inner loop is a \<open>map\<close>.
\<close>

definition cancel_hint :: "int \<Rightarrow> bool \<Rightarrow> myNode \<Rightarrow> myNode" where
  "cancel_hint oid ocol n =
    (let n1 = (if receive_rts n = True \<and> receive_rts_from n = oid \<and> ocol
               then n\<lparr>receive_rts := False\<rparr> else n)
     in if receive_data n1 = True \<and> receive_data_from n1 = oid \<and> ocol
        then n1\<lparr>receive_data := False\<rparr> else n1)"

definition cancel_for :: "nat \<Rightarrow> myNode list \<Rightarrow> myNode list" where
  "cancel_for k ns = map (cancel_hint (nodeid (ns ! k)) (collided (packet (ns ! k)) \<noteq> 0)) ns"

definition cancel_all :: "nat list \<Rightarrow> myNode list \<Rightarrow> myNode list" where
  "cancel_all bs ns = fold cancel_for bs ns"

text \<open>
  The body of the last loop, \<^verbatim>\<open>for node in nodes\<close>, for one node: the gateway has
  received the packet \<open>pk\<close>, so every listening node without a hint has received it too.
\<close>

definition mark_received :: "config \<Rightarrow> real \<Rightarrow> myPacket \<Rightarrow> myNode \<Rightarrow> myNode" where
  "mark_received g now pk n =
    (if nodeid n \<noteq> p_nodeid pk then
       if ca_state n = start_phase1_listen \<or> ca_state n = start_phase2_listen then
         if receive_rts n = False \<and> receive_data n = False then
           (let n1 = (if ptype pk = rtsPacketType
                      then n\<lparr>receive_rts := True, receive_rts_from := p_nodeid pk,
                             receive_rts_time := now, nav := data_len pk\<rparr>
                      else n)
            in if ptype pk = dataPacketType
               then n1\<lparr>receive_data := True, receive_data_from := p_nodeid pk,
                       receive_data_time := now, nav := max_payload_size g\<rparr>
               else n1)
         else n
       else n
     else n)"

text \<open>
  \<^verbatim>\<open>checkcollision\<close> up to and including the correction of earlier decisions: the
  demodulator check, the pairwise evaluation against the packets on the air and, under
  CA, the cancellation of hints.
\<close>

definition evaluate_arrival ::
  "config \<Rightarrow> real \<Rightarrow> nat \<Rightarrow> myNode list \<Rightarrow> nat list \<Rightarrow> error + int \<times> myNode list" where
  "evaluate_arrival g now i ns bs =
    (let ns1 = admit i ns bs in
     if bs \<noteq> [] then
       bind (check_others g now i bs (0, ns1)) (\<lambda>r.
         Inr (fst r, if CA g then cancel_all bs (snd r) else snd r))
     else Inr (0, ns1))"

text \<open>
  \<^verbatim>\<open>checkcollision(packet)\<close>: the return value \<^verbatim>\<open>col\<close> and the node objects afterwards.
\<close>

definition checkcollision ::
  "config \<Rightarrow> real \<Rightarrow> nat \<Rightarrow> myNode list \<Rightarrow> nat list \<Rightarrow> error + int \<times> myNode list" where
  "checkcollision g now i ns bs =
    bind (evaluate_arrival g now i ns bs) (\<lambda>r.
      let col = fst r; ns3 = snd r in
      if col \<noteq> 0 then Inr (col, ns3)
      else if CA g then Inr (0, map (mark_received g now (packet (ns3 ! i))) ns3)
      else Inr (0, ns3))"

subsection \<open>Receiver sensitivity\<close>

text \<open>
  The table \<^verbatim>\<open>sensi\<close> (one row per spreading factor: the SF, then the sensitivity per
  bandwidth) and the lookup \<^verbatim>\<open>sensi[sf - 6, [125,250,500].index(bw) + 1]\<close> of
  \<^verbatim>\<open>transmit\<close>. \<^verbatim>\<open>list.index\<close> raises \<^verbatim>\<open>ValueError\<close> on a missing value; a numpy row
  index counts from the end when negative and raises \<^verbatim>\<open>IndexError\<close> out of range.
\<close>

definition sensi :: "config \<Rightarrow> real list list" where
  "sensi g =
    (if lora24GHz g then
       [[5, -109.0, -107.0, -105.0, -99.0],
        [6, -111.0, -110.0, -118.0, -103.0],
        [7, -115.0, -113.0, -112.0, -106.0],
        [8, -118.0, -116.0, -115.0, -109.0],
        [9, -121.0, -119.0, -117.0, -111.0],
        [10, -124.0, -122.0, -120.0, -114.0],
        [11, -127.0, -125.0, -123.0, -117.0],
        [12, -130.0, -128.0, -126.0, -120.0]]
     else
       [[6, -118.0, -115.0, -111.0],
        [7, -126.5, -124.25, -120.75],
        [8, -127.25, -126.75, -124.0],
        [9, -131.25, -128.25, -127.5],
        [10, -132.75, -130.25, -128.75],
        [11, -134.5, -132.75, -128.75],
        [12, -133.25, -132.25, -132.25]])"

fun index_of :: "real list \<Rightarrow> real \<Rightarrow> error + nat" where
  "index_of [] v = Inl ValueError"
| "index_of (x # xs) v = (if x = v then Inr 0 else bind (index_of xs v) (\<lambda>k. Inr (Suc k)))"

definition row_at :: "'a list \<Rightarrow> int \<Rightarrow> error + 'a" where
  "row_at xs r =
    (let n = int (length xs); j = (if r < 0 then n + r else r)
     in if 0 \<le> j \<and> j < n then Inr (xs ! nat j) else Inl IndexError)"

definition sensitivity :: "config \<Rightarrow> myPacket \<Rightarrow> error + real" where
  "sensitivity g pk =
    (if lora24GHz g then
       bind (index_of [203.125, 406.25, 812.5, 1625] (bw pk)) (\<lambda>c.
         bind (row_at (sensi g) (sf pk - 5)) (\<lambda>row. Inr (row ! (c + 1))))
     else
       bind (index_of [125, 250, 500] (bw pk)) (\<lambda>c.
         bind (row_at (sensi g) (sf pk - 6)) (\<lambda>row. Inr (row ! (c + 1)))))"

subsection \<open>The simulation state\<close>

text \<open>
  The module's mutable globals that \<^verbatim>\<open>transmit\<close> and \<^verbatim>\<open>checkcollision\<close> share: the node
  objects, \<^verbatim>\<open>packetsAtBS\<close>, the two busy flags and \<^verbatim>\<open>nrProcessed\<close> (the other \<^verbatim>\<open>nr*\<close>
  counters are only reported). \<open>pcs\<close> gives, for each node, the place in \<^verbatim>\<open>transmit\<close> at
  which its generator stands.

  The body of \<^verbatim>\<open>while True\<close> is a sequence of \<^verbatim>\<open>if\<close> blocks, each guarded by
  \<^verbatim>\<open>node.ca_state\<close>; a \<^verbatim>\<open>yield\<close> inside a block resumes in the same block and falls
  through to the next. A step of the model runs one block, or one round of a carrier-sense
  loop, or the part of a transmission before or after its airtime \<^verbatim>\<open>yield\<close>. Between two
  steps of a node any other node may step: the scheduler, which resumes the node with the
  earliest timeout, is over-approximated by every interleaving, and the lengths of the
  timeouts are not part of the state.
\<close>

datatype pc =
  Loop_top | At_want_transmit | At_start_CA | At_phase1_listen | At_phase1_rts
  | At_phase2_backoff | Rts_cca | Rts_on_air | At_phase2_rts | At_phase2_listen
  | At_phase2_listen_rts | At_phase3_backoff | At_phase3_transmit | Data_on_air
  | At_start_nav | Loop_end | NoCA_wake | NoCA_cca | NoCA_on_air | Finished

record sim =
  nodes :: "myNode list"
  packetsAtBS :: "nat list"
  channel_busy_rts :: bool
  channel_busy_data :: bool
  nrProcessed :: int
  pcs :: "nat \<Rightarrow> pc"

text \<open>
  What a step takes from outside: the clock value \<^verbatim>\<open>env.now\<close> and the values of the
  random generator, \<open>roll\<close> for \<^verbatim>\<open>random.randint(1,100)\<close> of the carrier sense and \<open>pick\<close>
  for the other \<^verbatim>\<open>random.randint\<close> of the step.
\<close>

record draw =
  clock :: real
  roll :: int
  pick :: int

text \<open>
  \<^verbatim>\<open>random.randint(a, b)\<close>: \<^verbatim>\<open>ValueError\<close> on an empty range, otherwise some integer of
  \<open>a..b\<close>; the outside value is clamped into the range, so that every integer of the range
  and nothing else can result.
\<close>

definition randint :: "int \<Rightarrow> int \<Rightarrow> int \<Rightarrow> error + int" where
  "randint a b r = (if b < a then Inl ValueError else Inr (max a (min b r)))"

text \<open>\<^verbatim>\<open>random.randint(1,100) <= CCA_prob and CCA_prob!=0\<close>\<close>

definition cca_detects :: "config \<Rightarrow> draw \<Rightarrow> bool" where
  "cca_detects g d \<longleftrightarrow> max 1 (min 100 (roll d)) \<le> CCA_prob g \<and> CCA_prob g \<noteq> 0"

text \<open>
  \<^verbatim>\<open>node.backoff=random.randint(Wbusy_min,2**node.Wbusy_BE)\<close>: with a negative exponent
  \<^verbatim>\<open>2**node.Wbusy_BE\<close> is a fraction and \<^verbatim>\<open>randint\<close> raises \<^verbatim>\<open>ValueError\<close>.
\<close>

definition draw_backoff :: "config \<Rightarrow> draw \<Rightarrow> myNode \<Rightarrow> error + myNode" where
  "draw_backoff g d n =
    (if Wbusy_BE n < 0 then Inl ValueError
     else bind (randint (Wbusy_min g) (2 ^ nat (Wbusy_BE n)) (pick d))
            (\<lambda>b. Inr (n\<lparr>backoff := b\<rparr>)))"

text \<open>
  \<^verbatim>\<open>if Wbusy_exp_backoff: if node.Wbusy_BE<Wbusy_maxBE: node.Wbusy_BE=node.Wbusy_BE + 1\<close>
\<close>

definition grow_BE :: "config \<Rightarrow> myNode \<Rightarrow> myNode" where
  "grow_BE g n =
    (if Wbusy_exp_backoff g then
       if Wbusy_BE n < Wbusy_maxBE g then n\<lparr>Wbusy_BE := Wbusy_BE n + 1\<rparr> else n
     else n)"

text \<open>\<^verbatim>\<open>xs[ix] += 1\<close> on a Python list.\<close>

definition bump :: "int list \<Rightarrow> int \<Rightarrow> error + int list" where
  "bump xs ix =
    (let n = int (length xs); j = (if ix < 0 then n + ix else ix)
     in if 0 \<le> j \<and> j < n then Inr (xs[nat j := xs ! nat j + 1]) else Inl IndexError)"

text \<open>\<^verbatim>\<open>node.packet.setPacketType(t)\<close> on a node.\<close>

definition retype :: "config \<Rightarrow> ptype \<Rightarrow> myNode \<Rightarrow> error + myNode" where
  "retype g t n = bind (setPacketType g t (packet n)) (\<lambda>pk. Inr (n\<lparr>packet := pk\<rparr>))"

text \<open>
  \<^verbatim>\<open>extra_nav_difs\<close>: \<^verbatim>\<open>random.randint(0,Wnav)\<close> when \<^verbatim>\<open>Wnav != 0\<close>, else 0.
\<close>

definition extra_nav_difs :: "config \<Rightarrow> draw \<Rightarrow> error + int" where
  "extra_nav_difs g d = (if Wnav g \<noteq> 0 then randint 0 (Wnav g) (pick d) else Inr 0)"

subsection \<open>The blocks of \<^verbatim>\<open>transmit\<close> under collision avoidance\<close>

text \<open>
  Each block is a function of the node; \<open>brts\<close> and \<open>bdata\<close> are the values of
  \<^verbatim>\<open>channel_busy_rts\<close> and \<^verbatim>\<open>channel_busy_data\<close> that the block reads.
\<close>

text \<open>\<^verbatim>\<open>schedule_tx\<close>: count the cycle and wait for the next transmission.\<close>

definition blk_schedule_tx :: "myNode \<Rightarrow> myNode" where
  "blk_schedule_tx n =
    (if ca_state n = schedule_tx then n\<lparr>cycle := cycle n + 1, ca_state := want_transmit\<rparr>
     else n)"

text \<open>
  The counters of a clear channel assessment at \<^verbatim>\<open>want_transmit\<close>, before the RTS, and
  before the data transmission; only the first also counts \<^verbatim>\<open>n_busy_rts_p1\<close>, and the
  second is switched by \<^verbatim>\<open>check_busy_rts\<close>.
\<close>

definition count_cca_p1 :: "config \<Rightarrow> bool \<Rightarrow> bool \<Rightarrow> myNode \<Rightarrow> myNode" where
  "count_cca_p1 g brts bdata n =
    (if check_busy g then
       (let m = n\<lparr>n_cca := n_cca n + 1\<rparr> in
        if brts \<or> bdata then
          (if brts then m\<lparr>n_busy_rts := n_busy_rts m + 1, n_busy_rts_p1 := n_busy_rts_p1 m + 1\<rparr>
           else m\<lparr>n_busy_data := n_busy_data m + 1\<rparr>)
        else m)
     else n)"

definition count_cca :: "bool \<Rightarrow> bool \<Rightarrow> bool \<Rightarrow> myNode \<Rightarrow> myNode" where
  "count_cca enabled brts bdata n =
    (if enabled then
       (let m = n\<lparr>n_cca := n_cca n + 1\<rparr> in
        if brts \<or> bdata then
          (if brts then m\<lparr>n_busy_rts := n_busy_rts m + 1\<rparr>
           else m\<lparr>n_busy_data := n_busy_data m + 1\<rparr>)
        else m)
     else n)"

text \<open>
  The value of \<^verbatim>\<open>channel_find_busy\<close> after an assessment: the check is enabled, a busy
  flag is set and the carrier sense detects it.
\<close>

definition channel_find_busy :: "config \<Rightarrow> draw \<Rightarrow> bool \<Rightarrow> bool \<Rightarrow> bool \<Rightarrow> bool" where
  "channel_find_busy g d enabled brts bdata \<longleftrightarrow> enabled \<and> (brts \<or> bdata) \<and> cca_detects g d"

text \<open>\<^verbatim>\<open>want_transmit -> start_CA\<close>\<close>

definition blk_want_transmit ::
  "config \<Rightarrow> draw \<Rightarrow> bool \<Rightarrow> bool \<Rightarrow> myNode \<Rightarrow> error + myNode" where
  "blk_want_transmit g d brts bdata n =
    (if ca_state n = want_transmit \<and> ptype (packet n) = dataPacketType then
       if n_retry n = 0 then
         Inr (n\<lparr>n_aborted := n_aborted n + 1, n_retry := cfg_n_retry g,
                Wbusy_BE := cfg_Wbusy_BE g, cca := False, nav := 0\<rparr>)
       else
         (let n1 = (if cca n then n\<lparr>cca := False\<rparr>
                    else if nav n \<noteq> 0 then
                      (if W2afterNAV g \<noteq> cfg_W2 g then n\<lparr>nav := 0, W2 := W2afterNAV g\<rparr>
                       else n\<lparr>nav := 0, W2 := cfg_W2 g\<rparr>)
                    else n\<lparr>want_transmit_time := clock d\<rparr>);
              n2 = count_cca_p1 g brts bdata n1
          in if channel_find_busy g d (check_busy g) brts bdata then
               bind (draw_backoff g d n2) (\<lambda>n3.
                 let n4 = grow_BE g (n3\<lparr>cca := True\<rparr>)
                 in Inr (n4\<lparr>n_retry := n_retry n4 - 1\<rparr>))
             else
               bind (randint 0 100 (pick d)) (\<lambda>r.
                 retype g rtsPacketType (n2\<lparr>my_P := r, ca_state := start_CA\<rparr>)))
     else Inr n)"

text \<open>\<^verbatim>\<open>start_CA -> start_phase1_listen | start_phase2_backoff\<close>\<close>

definition blk_start_CA :: "config \<Rightarrow> draw \<Rightarrow> myNode \<Rightarrow> error + myNode" where
  "blk_start_CA g d n =
    (if ca_state n = start_CA \<and> ptype (packet n) = rtsPacketType then
       if my_P n > P n then
         Inr (n\<lparr>ca_state := start_phase1_listen, ca_listen_start_time := clock d,
                ca_listen_end_time :=
                  clock d + (real_of_int (WL g) * Tpream (packet n) + rectime (packet n))\<rparr>)
       else
         bind (randint 0 (cfg_W2 g) (pick d)) (\<lambda>b.
           Inr (n\<lparr>ca_state := start_phase2_backoff, backoff := b\<rparr>))
     else Inr n)"

text \<open>
  The end of a listening window without an RTS. The branch on
  \<^verbatim>\<open>receive_data_time+nav_period+extra_nav_difs*Tpream <= env.now\<close> only decides whether
  the block yields; \<^verbatim>\<open>airtime\<close> and \<^verbatim>\<open>randint\<close> are kept for what they can raise.
\<close>

definition blk_phase1_listen :: "config \<Rightarrow> draw \<Rightarrow> myNode \<Rightarrow> error + myNode" where
  "blk_phase1_listen g d n =
    (if ca_state n = start_phase1_listen \<and> receive_rts n = False then
       if receive_data n = True then
         bind (airtime g (sf (packet n)) (cr (packet n)) (nav n) (bw (packet n))) (\<lambda>nav_period.
           bind (extra_nav_difs g d) (\<lambda>extra.
             Inr (n\<lparr>receive_data := False, ca_state := start_nav\<rparr>)))
       else
         bind (randint 0 (cfg_W2 g) (pick d)) (\<lambda>b.
           Inr (n\<lparr>backoff := b, ca_state := start_phase2_backoff\<rparr>))
     else Inr n)"

text \<open>The end of a listening window in which an RTS was received.\<close>

definition blk_listen_rts :: "config \<Rightarrow> draw \<Rightarrow> ca_state \<Rightarrow> myNode \<Rightarrow> error + myNode" where
  "blk_listen_rts g d listening n =
    (if ca_state n = listening \<and> receive_rts n = True then
       bind (airtime g (sf (packet n)) (cr (packet n)) (nav n) (bw (packet n))) (\<lambda>toa.
         bind (extra_nav_difs g d) (\<lambda>extra.
           Inr (n\<lparr>receive_rts := False, ca_state := start_nav\<rparr>)))
     else Inr n)"

text \<open>\<^verbatim>\<open>start_phase2_backoff -> start_phase2_rts\<close>, up to the carrier-sense loop.\<close>

definition blk_phase2_backoff :: "config \<Rightarrow> myNode \<Rightarrow> myNode" where
  "blk_phase2_backoff g n =
    (let n1 = n\<lparr>ca_state := start_phase2_rts, Wbusy_BE := cfg_Wbusy_BE g\<rparr>;
         n2 = (if cfg_n_retry_rts g > 0 then n1\<lparr>n_retry_rts := cfg_n_retry_rts g\<rparr> else n1)
     in n2\<lparr>cca := False\<rparr>)"

text \<open>
  One evaluation of \<^verbatim>\<open>while node.n_retry_rts and channel_find_busy\<close> with its body.
  \<^verbatim>\<open>channel_find_busy\<close> is true whenever the condition is evaluated: it is set before the
  loop, and a round that clears it leaves the loop. The result says whether the round
  ended in the backoff \<^verbatim>\<open>yield\<close> (the loop goes on) or left the loop.
\<close>

definition rts_cca_round ::
  "config \<Rightarrow> draw \<Rightarrow> bool \<Rightarrow> bool \<Rightarrow> myNode \<Rightarrow> error + bool \<times> myNode" where
  "rts_cca_round g d brts bdata n =
    (if n_retry_rts n \<noteq> 0 then
       (let n1 = count_cca (check_busy_rts g) brts bdata n
        in if channel_find_busy g d (check_busy_rts g) brts bdata then
             bind (draw_backoff g d n1) (\<lambda>n2.
               let n3 = grow_BE g n2
               in Inr (True, if cfg_n_retry_rts g > 0
                             then n3\<lparr>n_retry_rts := n_retry_rts n3 - 1\<rparr> else n3))
           else Inr (False, n1))
     else Inr (False, n))"

text \<open>\<^verbatim>\<open>start_phase2_rts -> start_phase2_listen\<close>, or phase 3 at once under CA1.\<close>

definition blk_phase2_rts :: "config \<Rightarrow> draw \<Rightarrow> myNode \<Rightarrow> error + myNode" where
  "blk_phase2_rts g d n =
    (if ca_state n = start_phase2_rts then
       if CA1 g then
         bind (randint 0 (W3 g) (pick d)) (\<lambda>b.
           Inr (n\<lparr>ca_state := start_phase3_backoff, backoff := b\<rparr>))
       else
         Inr (n\<lparr>ca_state := start_phase2_listen, ca_listen_start_time := clock d,
                ca_listen_end_time :=
                  clock d + (real_of_int (WL g) * Tpream (packet n) + rectime (packet n))\<rparr>)
     else Inr n)"

definition blk_phase2_listen :: "config \<Rightarrow> draw \<Rightarrow> myNode \<Rightarrow> error + myNode" where
  "blk_phase2_listen g d n =
    (if ca_state n = start_phase2_listen \<and> receive_rts n = False then
       if receive_data n = True then
         bind (airtime g (sf (packet n)) (cr (packet n)) (nav n) (bw (packet n))) (\<lambda>nav_period.
           bind (extra_nav_difs g d) (\<lambda>extra.
             Inr (n\<lparr>receive_data := False, ca_state := start_nav\<rparr>)))
       else
         bind (randint 0 (W3 g) (pick d)) (\<lambda>b.
           Inr (n\<lparr>ca_state := start_phase3_backoff, backoff := b\<rparr>))
     else Inr n)"

text \<open>\<^verbatim>\<open>start_phase3_backoff -> start_phase3_transmit\<close>\<close>

definition blk_phase3_backoff :: "config \<Rightarrow> myNode \<Rightarrow> error + myNode" where
  "blk_phase3_backoff g n =
    (if ca_state n = start_phase3_backoff
     then retype g dataPacketType (n\<lparr>ca_state := start_phase3_transmit\<rparr>)
     else Inr n)"

text \<open>\<^verbatim>\<open>start_nav -> want_transmit\<close>\<close>

definition blk_start_nav :: "config \<Rightarrow> myNode \<Rightarrow> error + myNode" where
  "blk_start_nav g n =
    (if ca_state n = start_nav then
       bind (retype g dataPacketType (n\<lparr>ca_state := want_transmit\<rparr>)) (\<lambda>m.
         Inr (m\<lparr>n_retry := n_retry m - 1\<rparr>))
     else Inr n)"

subsection \<open>Putting a packet on the air and taking it off\<close>

definition set_lost :: "nat \<Rightarrow> bool \<Rightarrow> myNode list \<Rightarrow> myNode list" where
  "set_lost i v ns = ns[i := (ns ! i)\<lparr>packet := (packet (ns ! i))\<lparr>lost := v\<rparr>\<rparr>]"

definition set_addTime :: "nat \<Rightarrow> real \<Rightarrow> myNode list \<Rightarrow> myNode list" where
  "set_addTime i v ns = ns[i := (ns ! i)\<lparr>packet := (packet (ns ! i))\<lparr>addTime := v\<rparr>\<rparr>]"

text \<open>
  The arrival at the base station, from \<^verbatim>\<open>if (node in packetsAtBS)\<close> to the assignment
  of \<^verbatim>\<open>addTime\<close>. Without CA the caller overwrites \<^verbatim>\<open>packet.collided\<close> with 1 or 0
  according to whether \<^verbatim>\<open>checkcollision\<close> returned 1.
\<close>

definition arrive :: "config \<Rightarrow> bool \<Rightarrow> real \<Rightarrow> nat \<Rightarrow> sim \<Rightarrow> error + sim" where
  "arrive g from_return t i s =
    (if i \<in> set (packetsAtBS s) then Inr s
     else
       bind (sensitivity g (packet (nodes s ! i))) (\<lambda>sens.
         if rssi (packet (nodes s ! i)) < sens then
           Inr (s\<lparr>nodes := set_lost i True (nodes s)\<rparr>)
         else
           bind (checkcollision g t i (set_lost i False (nodes s)) (packetsAtBS s)) (\<lambda>r.
             let ns1 = (if from_return
                        then set_collided i (if fst r = 1 then 1 else 0) (snd r)
                        else snd r)
             in Inr (s\<lparr>nodes := set_addTime i t ns1, packetsAtBS := packetsAtBS s @ [i]\<rparr>))))"

text \<open>
  After the airtime: \<^verbatim>\<open>packetsAtBS.remove(node)\<close> when the node is in the list, then the
  reset of the packet.
\<close>

definition leave :: "nat \<Rightarrow> sim \<Rightarrow> sim" where
  "leave i s =
    s\<lparr>packetsAtBS := (if i \<in> set (packetsAtBS s) then remove1 i (packetsAtBS s)
                       else packetsAtBS s),
      nodes := (nodes s)[i := (nodes s ! i)\<lparr>packet :=
                  (packet (nodes s ! i))\<lparr>collided := 0, processed := 0, lost := False\<rparr>\<rparr>]\<rparr>"

text \<open>\<^verbatim>\<open>if node.packet.processed == 1: nrProcessed = nrProcessed + 1\<close>\<close>

definition count_processed :: "nat \<Rightarrow> sim \<Rightarrow> sim" where
  "count_processed i s =
    (if processed (packet (nodes s ! i)) = 1 then s\<lparr>nrProcessed := nrProcessed s + 1\<rparr> else s)"

subsection \<open>One step of a node\<close>

definition put :: "nat \<Rightarrow> myNode \<Rightarrow> pc \<Rightarrow> sim \<Rightarrow> sim" where
  "put i n l s = s\<lparr>nodes := (nodes s)[i := n], pcs := (pcs s)(i := l)\<rparr>"

definition goto :: "nat \<Rightarrow> pc \<Rightarrow> sim \<Rightarrow> sim" where
  "goto i l s = s\<lparr>pcs := (pcs s)(i := l)\<rparr>"

definition run_block :: "(myNode \<Rightarrow> error + myNode) \<Rightarrow> pc \<Rightarrow> nat \<Rightarrow> sim \<Rightarrow> error + sim" where
  "run_block f l i s = bind (f (nodes s ! i)) (\<lambda>n. Inr (put i n l s))"

text \<open>
  After the carrier-sense loop of phase 2: count the RTS, put it on the air, set
  \<^verbatim>\<open>channel_busy_rts\<close> and wait for its airtime.
\<close>

definition rts_send :: "config \<Rightarrow> draw \<Rightarrow> nat \<Rightarrow> sim \<Rightarrow> error + sim" where
  "rts_send g d i s =
    (let n = nodes s ! i
     in bind (bump (retry_rts_bin n) (cfg_n_retry_rts g - n_retry_rts n)) (\<lambda>bin.
          bind (arrive g False (clock d) i
                  (put i (n\<lparr>n_rts_sent := n_rts_sent n + 1, retry_rts_bin := bin\<rparr>) Rts_on_air s))
            (\<lambda>s2. Inr (s2\<lparr>channel_busy_rts := True\<rparr>))))"

definition rts_end :: "nat \<Rightarrow> sim \<Rightarrow> sim" where
  "rts_end i s = goto i At_phase2_rts (leave i (s\<lparr>channel_busy_rts := False\<rparr>))"

text \<open>
  \<^verbatim>\<open>start_phase3_transmit -> want_transmit | transmit DATA\<close>, up to the airtime
  \<^verbatim>\<open>yield\<close>.
\<close>

definition phase3_transmit :: "config \<Rightarrow> draw \<Rightarrow> nat \<Rightarrow> sim \<Rightarrow> error + sim" where
  "phase3_transmit g d i s =
    (let n = nodes s ! i
     in if ca_state n = start_phase3_transmit \<and> ptype (packet n) = dataPacketType then
          (let n1 = count_cca (check_busy g) (channel_busy_rts s) (channel_busy_data s) n
           in if channel_find_busy g d (check_busy g) (channel_busy_rts s) (channel_busy_data s)
              then Inr (put i (n1\<lparr>cca := True, n_retry := n_retry n1 - 1,
                                  ca_state := want_transmit\<rparr>) At_start_nav s)
              else
                bind (bump (retry_bin n1) (cfg_n_retry g - n_retry n1)) (\<lambda>bin.
                  bind (arrive g False (clock d) i
                          (put i (n1\<lparr>n_data_sent := n_data_sent n1 + 1, retry_bin := bin\<rparr>)
                             Data_on_air s))
                    (\<lambda>s2. Inr (s2\<lparr>channel_busy_data := True\<rparr>))))
        else Inr (goto i At_start_nav s))"

text \<open>The rest of the block, after the airtime of the data packet.\<close>

definition data_end :: "config \<Rightarrow> nat \<Rightarrow> sim \<Rightarrow> sim" where
  "data_end g i s =
    (let s1 = leave i (count_processed i (s\<lparr>channel_busy_data := False\<rparr>));
         n = nodes s1 ! i
     in put i (n\<lparr>n_retry := cfg_n_retry g, cca := False, nav := 0, ca_state := schedule_tx\<rparr>)
          At_start_nav s1)"

subsection \<open>\<^verbatim>\<open>transmit\<close> without collision avoidance\<close>

text \<open>
  One evaluation of \<^verbatim>\<open>while node.n_retry and channel_find_busy\<close> with its body; only
  \<^verbatim>\<open>channel_busy_data\<close> is read. With \<^verbatim>\<open>Wbusy_add_max_toa\<close> the wait adds the airtime of
  the largest payload, which is computed for what it can raise.
\<close>

definition noca_cca_round ::
  "config \<Rightarrow> draw \<Rightarrow> bool \<Rightarrow> myNode \<Rightarrow> error + bool \<times> myNode" where
  "noca_cca_round g d bdata n =
    (if n_retry n \<noteq> 0 then
       (let n1 = (if check_busy g then
                    (let m = n\<lparr>n_cca := n_cca n + 1\<rparr>
                     in if bdata then m\<lparr>n_busy_data := n_busy_data m + 1\<rparr> else m)
                  else n)
        in if check_busy g \<and> bdata \<and> cca_detects g d then
             bind (draw_backoff g d n1) (\<lambda>n2.
               let n3 = grow_BE g n2; n4 = n3\<lparr>n_retry := n_retry n3 - 1\<rparr>
               in bind (if Wbusy_add_max_toa g
                        then airtime g (sf (packet n4)) (cr (packet n4)) (max_payload_size g)
                               (bw (packet n4))
                        else Inr 0)
                    (\<lambda>toa. Inr (True, n4)))
           else Inr (False, n1))
     else Inr (False, n))"

text \<open>After the loop: abort when the retries are used up, else transmit.\<close>

definition noca_send :: "config \<Rightarrow> draw \<Rightarrow> nat \<Rightarrow> sim \<Rightarrow> error + sim" where
  "noca_send g d i s =
    (let n = nodes s ! i
     in if n_retry n = 0 then
          Inr (put i (n\<lparr>n_aborted := n_aborted n + 1, n_retry := cfg_n_retry g,
                        Wbusy_BE := cfg_Wbusy_BE g\<rparr>) Loop_end s)
        else
          bind (bump (retry_bin n) (cfg_n_retry g - n_retry n)) (\<lambda>bin.
            bind (arrive g True (clock d) i
                    (put i (n\<lparr>n_data_sent := n_data_sent n + 1, retry_bin := bin\<rparr>)
                       NoCA_on_air s))
              (\<lambda>s2. Inr (s2\<lparr>channel_busy_data := True\<rparr>))))"

definition noca_end :: "config \<Rightarrow> nat \<Rightarrow> sim \<Rightarrow> sim" where
  "noca_end g i s =
    (let s1 = leave i (count_processed i (s\<lparr>channel_busy_data := False\<rparr>));
         n = nodes s1 ! i
     in put i (n\<lparr>n_retry := cfg_n_retry g, Wbusy_BE := cfg_Wbusy_BE g\<rparr>) Loop_end s1)"

subsection \<open>The step function and the reachable states\<close>

text \<open>
  \<open>transmit_step g d i s\<close>: node \<open>i\<close> runs from where its generator stands to the end of
  the block (or to the \<^verbatim>\<open>yield\<close> inside a loop or a transmission). An exception ends the
  simulation: the step has no successor state.
\<close>

definition transmit_step :: "config \<Rightarrow> draw \<Rightarrow> nat \<Rightarrow> sim \<Rightarrow> error + sim" where
  "transmit_step g d i s =
    (let n = nodes s ! i; brts = channel_busy_rts s; bdata = channel_busy_data s
     in case pcs s i of
          Loop_top \<Rightarrow>
            if CA g then Inr (put i (blk_schedule_tx n) At_want_transmit s)
            else Inr (put i (n\<lparr>cycle := cycle n + 1\<rparr>) NoCA_wake s)
        | At_want_transmit \<Rightarrow> run_block (blk_want_transmit g d brts bdata) At_start_CA i s
        | At_start_CA \<Rightarrow> run_block (blk_start_CA g d) At_phase1_listen i s
        | At_phase1_listen \<Rightarrow> run_block (blk_phase1_listen g d) At_phase1_rts i s
        | At_phase1_rts \<Rightarrow>
            run_block (blk_listen_rts g d start_phase1_listen) At_phase2_backoff i s
        | At_phase2_backoff \<Rightarrow>
            if ca_state n = start_phase2_backoff
            then Inr (put i (blk_phase2_backoff g n) Rts_cca s)
            else Inr (goto i At_phase2_rts s)
        | Rts_cca \<Rightarrow>
            bind (rts_cca_round g d brts bdata n) (\<lambda>r.
              if fst r then Inr (put i (snd r) Rts_cca s)
              else rts_send g d i (put i (snd r) Rts_cca s))
        | Rts_on_air \<Rightarrow> Inr (rts_end i s)
        | At_phase2_rts \<Rightarrow> run_block (blk_phase2_rts g d) At_phase2_listen i s
        | At_phase2_listen \<Rightarrow> run_block (blk_phase2_listen g d) At_phase2_listen_rts i s
        | At_phase2_listen_rts \<Rightarrow>
            run_block (blk_listen_rts g d start_phase2_listen) At_phase3_backoff i s
        | At_phase3_backoff \<Rightarrow> run_block (blk_phase3_backoff g) At_phase3_transmit i s
        | At_phase3_transmit \<Rightarrow> phase3_transmit g d i s
        | Data_on_air \<Rightarrow> Inr (data_end g i s)
        | At_start_nav \<Rightarrow> run_block (blk_start_nav g) Loop_end i s
        | Loop_end \<Rightarrow>
            if nrProcessed s > targetSentPacket g then Inr (goto i Finished s)
            else Inr (goto i Loop_top s)
        | NoCA_wake \<Rightarrow> Inr (put i (n\<lparr>want_transmit_time := clock d\<rparr>) NoCA_cca s)
        | NoCA_cca \<Rightarrow>
            bind (noca_cca_round g d bdata n) (\<lambda>r.
              if fst r then Inr (put i (snd r) NoCA_cca s)
              else noca_send g d i (put i (snd r) NoCA_cca s))
        | NoCA_on_air \<Rightarrow> Inr (noca_end g i s)
        | Finished \<Rightarrow> Inr s)"

text \<open>
  The start of the simulation: one node per packet, built by \<^verbatim>\<open>myNode\<close> with ids
  \<open>0, 1, ...\<close>, nothing on the air, every generator at the top of its loop.
\<close>

definition initial :: "config \<Rightarrow> myPacket list \<Rightarrow> sim" where
  "initial g pks =
    \<lparr>nodes = map (\<lambda>k. myNode_init g (int k) (pks ! k)) [0..<length pks],
     packetsAtBS = [], channel_busy_rts = False, channel_busy_data = False,
     nrProcessed = 0, pcs = (\<lambda>k. Loop_top)\<rparr>"

definition built :: "config \<Rightarrow> nat \<Rightarrow> myPacket \<Rightarrow> bool" where
  "built g k pk \<longleftrightarrow>
    (\<exists>plen s b c f prx. myPacket_init g (int k) plen s b c f prx = Inr pk)"

inductive reachable :: "config \<Rightarrow> sim \<Rightarrow> bool" for g :: config where
  start: "(\<And>k. k < length pks \<Longrightarrow> built g k (pks ! k)) \<Longrightarrow> reachable g (initial g pks)"
| step: "reachable g s \<Longrightarrow> i < length (nodes s) \<Longrightarrow> transmit_step g d i s = Inr s'
         \<Longrightarrow> reachable g s'"

section \<open>Properties\<close>

subsection \<open>A concrete configuration\<close>

text \<open>
  The values the module assigns to its globals before the command line is read
  (sub-GHz, full collision check, CA with carrier sense, \<^verbatim>\<open>CCA_prob = 50\<close>, 40 data
  retries, 20 RTS retries, backoff exponent 3 to 6), with experiment 4.
\<close>

definition default_config :: config where
  "default_config =
    \<lparr>lora24GHz = False, full_collision = True, CA = True, CA1 = False, CA2 = False,
     check_busy = True, check_busy_rts = True, CCA_prob = 50, Wbusy_min = 1,
     cfg_Wbusy_BE = 3, Wbusy_maxBE = 6, Wbusy_exp_backoff = True, Wbusy_add_max_toa = False,
     cfg_n_retry = 40, cfg_n_retry_rts = 20, cfg_P = 0, WL = 7, cfg_W2 = 10, W3 = 7, Wnav = 0,
     W2afterNAV = 10, max_payload_size = 120, cfg_experiment = 4, targetSentPacket = 2000\<rparr>"

subsection \<open>Time on air (C5)\<close>

text \<open>
  C5. In sub-GHz mode, for SF in 6..12, CR in 1..4, a payload length \<open>pl \<ge> 0\<close> and BW in
  {125, 250, 500}, \<^verbatim>\<open>airtime\<close> returns (it does not raise) and its value is
  \<open>Tpream + payloadSymbNB * Tsym\<close> with \<open>Tsym\<close>, \<open>Tpream\<close>, \<open>H\<close>, \<open>DE\<close> and
  \<open>payloadSymbNB\<close> as the specification gives them. Floats are read as exact reals.
\<close>

theorem airtime_subGHz:
  assumes "\<not> lora24GHz g" and "6 \<le> s" and "s \<le> 12" and "1 \<le> c" and "c \<le> 4"
    and "0 \<le> l" and "b \<in> {125, 250, 500}"
  shows "airtime g s c l b = Inr (airtime_spec s c l b)"
proof -
  have bw0: "b \<noteq> 0" using assms(7) by auto
  have pw: "power_int (2::real) s = 2 ^ nat s"
    using assms(2) by (simp add: power_int_def)
  show ?thesis
    using assms(1,2) bw0
    by (auto simp add: airtime_def airtime_spec_def Let_def pw max.commute)
qed

theorem airtime_subGHz_witness:
  "airtime default_config 12 1 104 125 = Inr (513024 / 125)
   \<and> airtime_spec 12 1 104 125 = 513024 / 125"
proof -
  have "airtime default_config 12 1 104 125 = Inr (airtime_spec 12 1 104 125)"
    by (rule airtime_subGHz) (simp_all add: default_config_def)
  moreover have "airtime_spec 12 1 104 125 = 513024 / 125"
    by (simp add: airtime_spec_def Let_def)
  ultimately show ?thesis by simp
qed

subsection \<open>Example packets\<close>

text \<open>
  A 104-byte data packet of node 0 under experiment 4 (SF12, BW125, CR 4/5, 860 MHz),
  as \<^verbatim>\<open>myPacket.__init__\<close> builds it.
\<close>

definition pkt0 :: myPacket where
  "pkt0 =
    \<lparr>p_nodeid = 0, sf = 12, bw = 125, cr = 1, freq = 860000000, rssi = - 100, pl = 104,
     data_len = 104, Tpream = 50176 / 125, rectime = 513024 / 125, ptype = dataPacketType,
     collided = 0, processed = 0, lost = False, addTime = 0\<rparr>"

lemma pkt0_init: "myPacket_init default_config 0 104 12 125 1 0 (- 100) = Inr pkt0"
  by (simp add: myPacket_init_def carrier_def default_config_def airtime_def Let_def pkt0_def)

subsection \<open>Retyping a packet (C7)\<close>

lemma airtime_defined_any_length:
  "airtime g s c l b = Inr r \<Longrightarrow> \<exists>r'. airtime g s c l' b = Inr r'"
  by (auto simp add: airtime_def Let_def split: if_splits)

lemma setPacketType_rectime:
  "setPacketType g t p = Inr q \<Longrightarrow> airtime g (sf q) (cr q) (pl q) (bw q) = Inr (rectime q)"
  by (auto simp add: setPacketType_def Let_def bind_eq_Inr split: if_splits)

lemma myPacket_init_rectime:
  "myPacket_init g nid plen s b c f prx = Inr p \<Longrightarrow>
   airtime g (sf p) (cr p) (pl p) (bw p) = Inr (rectime p)"
  by (auto simp add: myPacket_init_def Let_def bind_eq_Inr split: if_splits)

lemma packet_state_rectime:
  "packet_state g p \<Longrightarrow> airtime g (sf p) (cr p) (pl p) (bw p) = Inr (rectime p)"
  by (induction rule: packet_state.induct)
     (simp_all add: myPacket_init_rectime setPacketType_rectime)

text \<open>
  C7. For every packet of the program whose \<^verbatim>\<open>pl\<close> equals its \<^verbatim>\<open>data_len\<close>,
  \<^verbatim>\<open>setPacketType(RTS)\<close> returns with \<^verbatim>\<open>pl = 5\<close>, a following \<^verbatim>\<open>setPacketType(DATA)\<close>
  returns with \<^verbatim>\<open>pl\<close> and \<^verbatim>\<open>rectime\<close> at their original values, and after every call of
  \<^verbatim>\<open>setPacketType\<close>, on any packet and with any type, \<^verbatim>\<open>rectime\<close> is the \<^verbatim>\<open>airtime\<close> of
  the packet's \<^verbatim>\<open>sf\<close>, \<^verbatim>\<open>cr\<close>, \<^verbatim>\<open>pl\<close> and \<^verbatim>\<open>bw\<close>.
\<close>

theorem setPacketType_roundtrip:
  assumes "packet_state g p" and "pl p = data_len p"
  shows "(\<exists>q r. setPacketType g rtsPacketType p = Inr q \<and> pl q = 5
            \<and> setPacketType g dataPacketType q = Inr r
            \<and> pl r = pl p \<and> rectime r = rectime p)
         \<and> (\<forall>t p' q'. setPacketType g t p' = Inr q' \<longrightarrow>
               airtime g (sf q') (cr q') (pl q') (bw q') = Inr (rectime q'))"
proof -
  have inv: "airtime g (sf p) (cr p) (pl p) (bw p) = Inr (rectime p)"
    using assms(1) by (rule packet_state_rectime)
  then obtain r5 where r5: "airtime g (sf p) (cr p) 5 (bw p) = Inr r5"
    using airtime_defined_any_length by blast
  define q where "q = p\<lparr>ptype := rtsPacketType, pl := 5, rectime := r5\<rparr>"
  have q: "setPacketType g rtsPacketType p = Inr q"
    by (simp add: setPacketType_def Let_def r5 q_def)
  define r where "r = q\<lparr>ptype := dataPacketType, pl := data_len q, rectime := rectime p\<rparr>"
  have r: "setPacketType g dataPacketType q = Inr r"
    using inv assms(2) by (simp add: setPacketType_def Let_def q_def r_def)
  have "pl q = 5" by (simp add: q_def)
  moreover have "pl r = pl p" "rectime r = rectime p"
    using assms(2) by (simp_all add: r_def q_def)
  ultimately show ?thesis
    using q r setPacketType_rectime by blast
qed

theorem setPacketType_roundtrip_witness:
  "packet_state default_config pkt0 \<and> pl pkt0 = data_len pkt0
   \<and> (\<exists>q r. setPacketType default_config rtsPacketType pkt0 = Inr q \<and> pl q = 5
           \<and> setPacketType default_config dataPacketType q = Inr r
           \<and> pl r = pl pkt0 \<and> rectime r = rectime pkt0)"
proof -
  have a: "packet_state default_config pkt0" using pkt0_init by (rule packet_state.created)
  have b: "pl pkt0 = data_len pkt0" by (simp add: pkt0_def)
  show ?thesis using a b setPacketType_roundtrip[OF a b] by blast
qed

subsection \<open>What \<^verbatim>\<open>checkcollision\<close> leaves alone\<close>

text \<open>Nodes that differ at most in the flags of their packets.\<close>

definition clear_flags :: "myNode \<Rightarrow> myNode" where
  "clear_flags n = n\<lparr>packet := (packet n)\<lparr>collided := 0, processed := 0\<rparr>\<rparr>"

definition flags_only :: "myNode \<Rightarrow> myNode \<Rightarrow> bool" where
  "flags_only n n' \<longleftrightarrow> clear_flags n' = clear_flags n"

lemma flags_only_refl [simp]: "flags_only n n"
  by (simp add: flags_only_def)

lemma flags_only_trans: "flags_only a b \<Longrightarrow> flags_only b c \<Longrightarrow> flags_only a c"
  by (simp add: flags_only_def)

lemma flags_only_collided [simp]:
  "flags_only n (n\<lparr>packet := (packet n)\<lparr>collided := v\<rparr>\<rparr>)"
  by (simp add: flags_only_def clear_flags_def)

lemma flags_only_processed [simp]:
  "flags_only n (n\<lparr>packet := (packet n)\<lparr>processed := v\<rparr>\<rparr>)"
  by (simp add: flags_only_def clear_flags_def)

lemma flags_only_mac:
  assumes "flags_only n n'"
  shows "nodeid n' = nodeid n" and "ca_state n' = ca_state n"
    and "receive_rts n' = receive_rts n" and "receive_data n' = receive_data n"
    and "receive_rts_from n' = receive_rts_from n" and "receive_data_from n' = receive_data_from n"
    and "p_nodeid (packet n') = p_nodeid (packet n)" and "ptype (packet n') = ptype (packet n)"
    and "data_len (packet n') = data_len (packet n)"
proof -
  have e: "clear_flags n' = clear_flags n" using assms by (simp add: flags_only_def)
  show "nodeid n' = nodeid n" using arg_cong[OF e, of nodeid] by (simp add: clear_flags_def)
  show "ca_state n' = ca_state n" using arg_cong[OF e, of ca_state] by (simp add: clear_flags_def)
  show "receive_rts n' = receive_rts n" using arg_cong[OF e, of receive_rts] by (simp add: clear_flags_def)
  show "receive_data n' = receive_data n" using arg_cong[OF e, of receive_data] by (simp add: clear_flags_def)
  show "receive_rts_from n' = receive_rts_from n" using arg_cong[OF e, of receive_rts_from] by (simp add: clear_flags_def)
  show "receive_data_from n' = receive_data_from n" using arg_cong[OF e, of receive_data_from] by (simp add: clear_flags_def)
  show "p_nodeid (packet n') = p_nodeid (packet n)"
    using arg_cong[OF e, of "\<lambda>x. p_nodeid (packet x)"] by (simp add: clear_flags_def)
  show "ptype (packet n') = ptype (packet n)"
    using arg_cong[OF e, of "\<lambda>x. ptype (packet x)"] by (simp add: clear_flags_def)
  show "data_len (packet n') = data_len (packet n)"
    using arg_cong[OF e, of "\<lambda>x. data_len (packet x)"] by (simp add: clear_flags_def)
qed

definition flags_only_list :: "myNode list \<Rightarrow> myNode list \<Rightarrow> bool" where
  "flags_only_list ns ns' \<longleftrightarrow> list_all2 flags_only ns ns'"

lemma flags_only_list_refl [simp]: "flags_only_list ns ns"
  by (simp add: flags_only_list_def list_all2_refl)

lemma flags_only_list_trans:
  "flags_only_list a b \<Longrightarrow> flags_only_list b c \<Longrightarrow> flags_only_list a c"
  unfolding flags_only_list_def
  by (erule (1) list_all2_trans[rotated 1]) (rule flags_only_trans)

lemma flags_only_list_update:
  "flags_only (ns ! i) n' \<Longrightarrow> flags_only_list ns (ns[i := n'])"
  unfolding flags_only_list_def
  by (cases "i < length ns") (simp_all add: list_all2_conv_all_nth nth_list_update)

lemma set_collided_flags: "flags_only_list ns (set_collided i v ns)"
  by (simp add: set_collided_def flags_only_list_update)

lemma set_processed_flags: "flags_only_list ns (set_processed i v ns)"
  by (simp add: set_processed_def flags_only_list_update)

lemma admit_flags: "flags_only_list ns (admit i ns bs)"
  by (simp add: admit_def set_processed_flags)

lemma check_other_flags:
  "check_other g now i k (col, ns) = Inr (col', ns') \<Longrightarrow> flags_only_list ns ns'"
  by (auto simp add: check_other_def Let_def bind_eq_Inr
      split: if_splits casualties.splits
      intro: set_collided_flags flags_only_list_trans[OF set_collided_flags set_collided_flags])

lemma check_others_flags:
  "check_others g now i ks (col, ns) = Inr (col', ns') \<Longrightarrow> flags_only_list ns ns'"
proof (induction ks arbitrary: col ns)
  case Nil
  then show ?case by simp
next
  case (Cons k ks)
  from Cons.prems obtain c1 n1 where
    a: "check_other g now i k (col, ns) = Inr (c1, n1)" and
    b: "check_others g now i ks (c1, n1) = Inr (col', ns')"
    by (auto simp add: bind_eq_Inr)
  from check_other_flags[OF a] Cons.IH[OF b] show ?case
    by (rule flags_only_list_trans)
qed

text \<open>What the cancellation loops compute, node by node.\<close>

definition sender_collided :: "myNode list \<Rightarrow> nat list \<Rightarrow> int \<Rightarrow> bool" where
  "sender_collided ns bs nid \<longleftrightarrow>
    (\<exists>k \<in> set bs. nodeid (ns ! k) = nid \<and> collided (packet (ns ! k)) \<noteq> 0)"

definition cancelled :: "myNode list \<Rightarrow> nat list \<Rightarrow> myNode \<Rightarrow> myNode" where
  "cancelled ns bs n =
    n\<lparr>receive_rts := receive_rts n \<and> \<not> sender_collided ns bs (receive_rts_from n),
      receive_data := receive_data n \<and> \<not> sender_collided ns bs (receive_data_from n)\<rparr>"

lemma cancel_hint_keeps [simp]:
  "nodeid (cancel_hint a b n) = nodeid n" "packet (cancel_hint a b n) = packet n"
  by (simp_all add: cancel_hint_def Let_def)

lemma cancel_for_length [simp]: "length (cancel_for k ns) = length ns"
  by (simp add: cancel_for_def)

lemma cancel_for_keeps:
  "j < length ns \<Longrightarrow> nodeid (cancel_for k ns ! j) = nodeid (ns ! j)"
  "j < length ns \<Longrightarrow> packet (cancel_for k ns ! j) = packet (ns ! j)"
  by (simp_all add: cancel_for_def)

lemma sender_collided_cancel_for:
  "\<forall>k \<in> set bs. k < length ns \<Longrightarrow>
   sender_collided (cancel_for k' ns) bs nid = sender_collided ns bs nid"
  by (simp add: sender_collided_def cancel_for_keeps)

lemma sender_collided_Cons:
  "sender_collided ns (k # ks) nid \<longleftrightarrow>
   (nodeid (ns ! k) = nid \<and> collided (packet (ns ! k)) \<noteq> 0) \<or> sender_collided ns ks nid"
  by (simp add: sender_collided_def)

lemma cancelled_step:
  "cancelled ns ks (cancel_hint (nodeid (ns ! k)) (collided (packet (ns ! k)) \<noteq> 0) n)
   = cancelled ns (k # ks) n"
proof -
  let ?c = "collided (packet (ns ! k)) \<noteq> 0"
  let ?id = "nodeid (ns ! k)"
  consider (a) "\<not> ?c" | (b) "?c"
    by blast
  then show ?thesis
  proof cases
    case a
    then show ?thesis
      by (simp add: cancelled_def cancel_hint_def Let_def sender_collided_Cons)
  next
    case b
    show ?thesis
    proof (cases "receive_rts_from n = ?id")
      case True
      then show ?thesis
        using b by (cases "receive_data_from n = ?id")
          (simp_all add: cancelled_def cancel_hint_def Let_def sender_collided_Cons eq_commute[of ?id])
    next
      case False
      then show ?thesis
        using b by (cases "receive_data_from n = ?id")
          (simp_all add: cancelled_def cancel_hint_def Let_def sender_collided_Cons eq_commute[of ?id])
    qed
  qed
qed

lemma cancelled_Nil [simp]: "cancelled ns [] n = n"
  by (simp add: cancelled_def sender_collided_def)

lemma cancel_all_map:
  "\<forall>k \<in> set bs. k < length ns \<Longrightarrow> cancel_all bs ns = map (cancelled ns bs) ns"
proof (induction bs arbitrary: ns)
  case Nil
  then show ?case by (simp add: cancel_all_def)
next
  case (Cons k ks)
  let ?ns1 = "cancel_for k ns"
  have wf: "\<forall>k' \<in> set ks. k' < length ?ns1" using Cons.prems by simp
  have same: "cancelled ?ns1 ks = cancelled ns ks"
    using Cons.prems by (intro ext) (simp add: cancelled_def sender_collided_cancel_for)
  have "cancel_all (k # ks) ns = cancel_all ks ?ns1" by (simp add: cancel_all_def)
  also have "\<dots> = map (cancelled ?ns1 ks) ?ns1" using Cons.IH[OF wf] .
  also have "\<dots> = map (cancelled ns (k # ks)) ns"
    unfolding same by (simp add: cancel_for_def cancelled_step)
  finally show ?case .
qed

lemma flags_only_list_length: "flags_only_list ns ns' \<Longrightarrow> length ns' = length ns"
  by (simp add: flags_only_list_def list_all2_lengthD)

lemma flags_only_list_nth:
  "flags_only_list ns ns' \<Longrightarrow> j < length ns \<Longrightarrow> flags_only (ns ! j) (ns' ! j)"
  by (simp add: flags_only_list_def list_all2_nthD)

text \<open>The stages of \<^verbatim>\<open>evaluate_arrival\<close>.\<close>

lemma evaluate_arrival_stages:
  assumes "evaluate_arrival g now i ns bs = Inr (col, ns3)"
  shows "\<exists>ns2. flags_only_list ns ns2
           \<and> ns3 = (if bs \<noteq> [] \<and> CA g then cancel_all bs ns2 else ns2)"
proof (cases "bs = []")
  case True
  then show ?thesis
    using assms admit_flags[of ns i bs] by (auto simp add: evaluate_arrival_def Let_def)
next
  case False
  from assms False obtain c2 ns2 where
    a: "check_others g now i bs (0, admit i ns bs) = Inr (c2, ns2)" and
    b: "ns3 = (if CA g then cancel_all bs ns2 else ns2)"
    by (auto simp add: evaluate_arrival_def Let_def bind_eq_Inr)
  have "flags_only_list ns ns2"
    using admit_flags check_others_flags[OF a] by (rule flags_only_list_trans)
  then show ?thesis using b False by auto
qed

lemma cancelled_keeps [simp]:
  "nodeid (cancelled ns bs n) = nodeid n" "packet (cancelled ns bs n) = packet n"
  "ca_state (cancelled ns bs n) = ca_state n"
  "receive_rts_from (cancelled ns bs n) = receive_rts_from n"
  "receive_data_from (cancelled ns bs n) = receive_data_from n"
  by (simp_all add: cancelled_def)

lemma sender_collided_map_cancelled:
  "\<forall>k \<in> set bs. k < length ns \<Longrightarrow>
   sender_collided (map (cancelled ms cs) ns) bs nid = sender_collided ns bs nid"
  by (simp add: sender_collided_def)

lemma evaluate_arrival_hints:
  assumes ca: "CA g" and wf: "\<forall>k \<in> set bs. k < length ns"
    and ev: "evaluate_arrival g now i ns bs = Inr (col, ns3)"
  shows "length ns3 = length ns"
    and "j < length ns \<Longrightarrow>
         receive_rts (ns3 ! j) =
           (receive_rts (ns ! j) \<and> \<not> sender_collided ns3 bs (receive_rts_from (ns ! j)))"
    and "j < length ns \<Longrightarrow>
         receive_data (ns3 ! j) =
           (receive_data (ns ! j) \<and> \<not> sender_collided ns3 bs (receive_data_from (ns ! j)))"
    and "j < length ns \<Longrightarrow> nodeid (ns3 ! j) = nodeid (ns ! j)"
    and "j < length ns \<Longrightarrow> ca_state (ns3 ! j) = ca_state (ns ! j)"
    and "j < length ns \<Longrightarrow> p_nodeid (packet (ns3 ! j)) = p_nodeid (packet (ns ! j))"
    and "j < length ns \<Longrightarrow> ptype (packet (ns3 ! j)) = ptype (packet (ns ! j))"
    and "j < length ns \<Longrightarrow> data_len (packet (ns3 ! j)) = data_len (packet (ns ! j))"
proof -
  from evaluate_arrival_stages[OF ev] obtain ns2 where
    fl: "flags_only_list ns ns2" and
    n3: "ns3 = (if bs \<noteq> [] \<and> CA g then cancel_all bs ns2 else ns2)"
    by blast
  have len2: "length ns2 = length ns" using fl by (rule flags_only_list_length)
  have wf2: "\<forall>k \<in> set bs. k < length ns2" using wf len2 by simp
  have n3': "ns3 = map (cancelled ns2 bs) ns2"
  proof (cases "bs = []")
    case True
    then show ?thesis using n3 by (simp add: map_idI)
  next
    case False
    then show ?thesis using n3 ca cancel_all_map[OF wf2] by simp
  qed
  show "length ns3 = length ns" using n3' len2 by simp
  have sc: "sender_collided ns3 bs nid = sender_collided ns2 bs nid" for nid
    unfolding n3' using wf2 by (rule sender_collided_map_cancelled)
  {
    assume j: "j < length ns"
    then have j2: "j < length ns2" using len2 by simp
    have f: "flags_only (ns ! j) (ns2 ! j)" using fl j by (rule flags_only_list_nth)
    have nth: "ns3 ! j = cancelled ns2 bs (ns2 ! j)" using n3' j2 by simp
    show "receive_rts (ns3 ! j) =
           (receive_rts (ns ! j) \<and> \<not> sender_collided ns3 bs (receive_rts_from (ns ! j)))"
      unfolding sc nth using flags_only_mac[OF f] by (simp add: cancelled_def)
    show "receive_data (ns3 ! j) =
           (receive_data (ns ! j) \<and> \<not> sender_collided ns3 bs (receive_data_from (ns ! j)))"
      unfolding sc nth using flags_only_mac[OF f] by (simp add: cancelled_def)
    show "nodeid (ns3 ! j) = nodeid (ns ! j)"
      unfolding nth using flags_only_mac[OF f] by simp
    show "ca_state (ns3 ! j) = ca_state (ns ! j)"
      unfolding nth using flags_only_mac[OF f] by simp
    show "p_nodeid (packet (ns3 ! j)) = p_nodeid (packet (ns ! j))"
      unfolding nth using flags_only_mac[OF f] by simp
    show "ptype (packet (ns3 ! j)) = ptype (packet (ns ! j))"
      unfolding nth using flags_only_mac[OF f] by simp
    show "data_len (packet (ns3 ! j)) = data_len (packet (ns ! j))"
      unfolding nth using flags_only_mac[OF f] by simp
  }
qed

lemma checkcollision_stages:
  assumes "checkcollision g now i ns bs = Inr (col, ns')"
  shows "\<exists>ns3. evaluate_arrival g now i ns bs = Inr (col, ns3)
           \<and> ns' = (if col = 0 \<and> CA g then map (mark_received g now (packet (ns3 ! i))) ns3
                    else ns3)"
  using assms
  by (auto simp add: checkcollision_def Let_def bind_eq_Inr split: if_splits)

text \<open>The claim's words for the last loop.\<close>

definition awaiting :: "myPacket \<Rightarrow> myNode \<Rightarrow> bool" where
  "awaiting pk n \<longleftrightarrow>
    nodeid n \<noteq> p_nodeid pk
    \<and> (ca_state n = start_phase1_listen \<or> ca_state n = start_phase2_listen)
    \<and> \<not> receive_rts n \<and> \<not> receive_data n"

definition hinted :: "config \<Rightarrow> real \<Rightarrow> myPacket \<Rightarrow> myNode \<Rightarrow> myNode" where
  "hinted g now pk n =
    (case ptype pk of
       rtsPacketType \<Rightarrow>
         n\<lparr>receive_rts := True, receive_rts_from := p_nodeid pk, receive_rts_time := now,
           nav := data_len pk\<rparr>
     | dataPacketType \<Rightarrow>
         n\<lparr>receive_data := True, receive_data_from := p_nodeid pk, receive_data_time := now,
           nav := max_payload_size g\<rparr>)"

lemma mark_received_eq:
  "mark_received g now pk n = (if awaiting pk n then hinted g now pk n else n)"
  by (cases "ptype pk") (simp_all add: mark_received_def awaiting_def hinted_def Let_def)

subsection \<open>A scene at the gateway\<close>

text \<open>
  Three nodes at clock value 20. Node 1 has been sending an RTS since 10 and is on the
  air; node 2 is in its phase-1 listening window and holds the hint that this RTS left;
  node 0 now starts an RTS that arrives 10 dB stronger, on the same carrier and
  spreading factor.
\<close>

definition rts0 :: myPacket where
  "rts0 = pkt0\<lparr>pl := 5, rectime := 103424 / 125, ptype := rtsPacketType\<rparr>"

definition sender :: myNode where
  "sender = (myNode_init default_config 0 rts0)\<lparr>ca_state := start_phase2_rts\<rparr>"

definition on_air :: myNode where
  "on_air = (myNode_init default_config 1
               (rts0\<lparr>p_nodeid := 1, rssi := - 110, processed := 1, addTime := 10\<rparr>))
            \<lparr>ca_state := start_phase2_rts\<rparr>"

definition listener :: myNode where
  "listener = (myNode_init default_config 2 (pkt0\<lparr>p_nodeid := 2\<rparr>))
              \<lparr>ca_state := start_phase1_listen, receive_rts := True, receive_rts_from := 1,
               receive_rts_time := 10, nav := 104\<rparr>"

lemmas gateway_defs = checkcollision_def evaluate_arrival_def admit_def processing_def set_processed_def
  check_other_def frequencyCollision_def sfCollision_def timingCollision_def powerCollision_def
  set_collided_def cancel_all_def cancel_for_def cancel_hint_def mark_received_def maxBSReceives_def

lemma scene_arrival:
  "checkcollision default_config 20 0 [sender, on_air, listener] [1] =
     Inr (0, [sender\<lparr>packet := (packet sender)\<lparr>processed := 1\<rparr>\<rparr>,
              on_air\<lparr>packet := (packet on_air)\<lparr>collided := 1\<rparr>\<rparr>,
              listener\<lparr>receive_rts_from := 0, receive_rts_time := 20\<rparr>])"
  by (simp add: gateway_defs sender_def on_air_def listener_def rts0_def pkt0_def
      myNode_init_def default_config_def Let_def)

subsection \<open>Cancellation of hints (C3)\<close>

text \<open>
  C3. On every arrival under CA, with the references in \<^verbatim>\<open>packetsAtBS\<close> pointing into
  \<^verbatim>\<open>nodes\<close>: once the pairwise evaluation has run, \<^verbatim>\<open>receive_rts\<close> of a node holds
  exactly when it held before and no node on the air carries the recorded sender's id
  with its packet now marked collided; likewise \<^verbatim>\<open>receive_data\<close>. This is the state
  \<^verbatim>\<open>checkcollision\<close> returns when the arriving packet collided, and the state its last
  loop starts from when it did not.
\<close>

theorem checkcollision_cancels_hints:
  assumes "CA g" and "\<forall>k \<in> set bs. k < length ns"
    and "checkcollision g now i ns bs = Inr (col, ns')"
  shows "\<exists>ns3. evaluate_arrival g now i ns bs = Inr (col, ns3) \<and> length ns3 = length ns
           \<and> (\<forall>j < length ns.
                 receive_rts (ns3 ! j) =
                   (receive_rts (ns ! j)
                    \<and> \<not> sender_collided ns3 bs (receive_rts_from (ns ! j)))
               \<and> receive_data (ns3 ! j) =
                   (receive_data (ns ! j)
                    \<and> \<not> sender_collided ns3 bs (receive_data_from (ns ! j))))
           \<and> (col \<noteq> 0 \<longrightarrow> ns' = ns3)
           \<and> (col = 0 \<longrightarrow> ns' = map (mark_received g now (packet (ns3 ! i))) ns3)"
proof -
  from checkcollision_stages[OF assms(3)] obtain ns3 where
    ev: "evaluate_arrival g now i ns bs = Inr (col, ns3)" and
    fin: "ns' = (if col = 0 \<and> CA g then map (mark_received g now (packet (ns3 ! i))) ns3
                 else ns3)"
    by blast
  show ?thesis
    using ev fin assms(1) evaluate_arrival_hints(1-3)[OF assms(1,2) ev] by auto
qed


theorem checkcollision_cancels_hints_witness:
  "CA default_config \<and> 1 < length [sender, on_air, listener]
   \<and> (\<exists>ns3. evaluate_arrival default_config 20 0 [sender, on_air, listener] [1] = Inr (0, ns3)
         \<and> length ns3 = length [sender, on_air, listener]
         \<and> (\<forall>j < length [sender, on_air, listener].
               receive_rts (ns3 ! j) =
                 (receive_rts ([sender, on_air, listener] ! j)
                  \<and> \<not> sender_collided ns3 [1]
                        (receive_rts_from ([sender, on_air, listener] ! j)))
             \<and> receive_data (ns3 ! j) =
                 (receive_data ([sender, on_air, listener] ! j)
                  \<and> \<not> sender_collided ns3 [1]
                        (receive_data_from ([sender, on_air, listener] ! j)))))"
proof -
  have a: "CA default_config" by (simp add: default_config_def)
  have b: "\<forall>k \<in> set [1]. k < length [sender, on_air, listener]" by simp
  show ?thesis
    using a checkcollision_cancels_hints[OF a b scene_arrival] by auto
qed

subsection \<open>Hints for the listening nodes (C2)\<close>

text \<open>
  C2 as stated reads the flags on arrival and leaves every other node's hints unchanged.
  In the scene, node 2 holds a hint on arrival, so it is one of the other nodes; the
  arriving packet is not marked collided, and yet node 2 ends with the arriving packet's
  hint: its old hint came from node 1, which the arrival has just marked collided, so
  the cancellation cleared it, and the last loop found node 2 without a hint.
\<close>

theorem arrival_replaces_cancelled_hint:
  "checkcollision default_config 20 0 [sender, on_air, listener] [1] =
     Inr (0, [sender\<lparr>packet := (packet sender)\<lparr>processed := 1\<rparr>\<rparr>,
              on_air\<lparr>packet := (packet on_air)\<lparr>collided := 1\<rparr>\<rparr>,
              listener\<lparr>receive_rts_from := 0, receive_rts_time := 20\<rparr>])
   \<and> receive_rts listener \<and> receive_rts_from listener = 1 \<and> receive_rts_time listener = 10
   \<and> nodeid listener \<noteq> p_nodeid (packet sender)"
  using scene_arrival by (simp add: listener_def sender_def myNode_init_def rts0_def pkt0_def)

text \<open>
  C2, amended. Under CA, when \<^verbatim>\<open>checkcollision\<close> returns 0 (the arriving packet of node
  \<open>i\<close> was not marked collided): every node left by the cancellation of C3 as a listening
  node other than the sender with both flags false receives the hint of the arriving
  packet (\<^verbatim>\<open>receive_rts\<close>, sender, clock value and \<^verbatim>\<open>nav = data_len\<close> for an RTS;
  \<^verbatim>\<open>receive_data\<close>, sender, clock value and \<^verbatim>\<open>nav = max_payload_size\<close> for DATA), every
  other node is returned as the cancellation left it, and every node that was such a
  listening node on arrival still is one after the cancellation.
\<close>

theorem checkcollision_marks_listeners:
  assumes "CA g" and "\<forall>k \<in> set bs. k < length ns" and "i < length ns"
    and "checkcollision g now i ns bs = Inr (0, ns')"
  shows "\<exists>ns3. evaluate_arrival g now i ns bs = Inr (0, ns3) \<and> length ns3 = length ns
           \<and> ns' = map (\<lambda>n. if awaiting (packet (ns ! i)) n
                              then hinted g now (packet (ns ! i)) n else n) ns3
           \<and> (\<forall>j < length ns. awaiting (packet (ns ! i)) (ns ! j)
                 \<longrightarrow> awaiting (packet (ns ! i)) (ns3 ! j))"
proof -
  from checkcollision_stages[OF assms(4)] obtain ns3 where
    ev: "evaluate_arrival g now i ns bs = Inr (0, ns3)" and
    fin: "ns' = map (mark_received g now (packet (ns3 ! i))) ns3"
    using assms(1) by auto
  note h = evaluate_arrival_hints[OF assms(1,2) ev]
  have aw: "awaiting (packet (ns3 ! i)) = awaiting (packet (ns ! i))"
    using h(6)[OF assms(3)] by (intro ext) (simp add: awaiting_def)
  have hi: "hinted g now (packet (ns3 ! i)) = hinted g now (packet (ns ! i))"
    using h(6,7,8)[OF assms(3)] by (intro ext) (simp add: hinted_def split: ptype.splits)
  have "ns' = map (\<lambda>n. if awaiting (packet (ns ! i)) n
                        then hinted g now (packet (ns ! i)) n else n) ns3"
    unfolding fin by (simp add: mark_received_eq aw hi)
  moreover have "awaiting (packet (ns ! i)) (ns3 ! j)"
    if "j < length ns" and "awaiting (packet (ns ! i)) (ns ! j)" for j
    using that h(2,3,4,5)[OF that(1)] by (simp add: awaiting_def)
  ultimately show ?thesis using ev h(1) by blast
qed

theorem checkcollision_marks_listeners_witness:
  "CA default_config \<and> 1 < length [sender, on_air, listener]
   \<and> 0 < length [sender, on_air, listener]
   \<and> (\<exists>ns3. evaluate_arrival default_config 20 0 [sender, on_air, listener] [1] = Inr (0, ns3)
         \<and> [sender\<lparr>packet := (packet sender)\<lparr>processed := 1\<rparr>\<rparr>,
             on_air\<lparr>packet := (packet on_air)\<lparr>collided := 1\<rparr>\<rparr>,
             listener\<lparr>receive_rts_from := 0, receive_rts_time := 20\<rparr>]
            = map (\<lambda>n. if awaiting (packet sender) n
                         then hinted default_config 20 (packet sender) n else n) ns3)"
proof -
  have a: "CA default_config" by (simp add: default_config_def)
  have b: "\<forall>k \<in> set [1]. k < length [sender, on_air, listener]" by simp
  have c: "0 < length [sender, on_air, listener]" by simp
  show ?thesis
    using a checkcollision_marks_listeners[OF a b c scene_arrival] by auto
qed

subsection \<open>The node's own part of a step\<close>

text \<open>
  What belongs to a node alone: the node without the attributes that the gateway writes
  (the packet's flags and arrival time, the reception hints and \<^verbatim>\<open>nav\<close>).
\<close>

definition own_part :: "myNode \<Rightarrow> myNode" where
  "own_part n =
    n\<lparr>packet := (packet n)\<lparr>collided := 0, processed := 0, lost := False, addTime := 0\<rparr>,
      receive_rts := False, receive_rts_time := 0, receive_rts_from := 0,
      receive_data := False, receive_data_time := 0, receive_data_from := 0, nav := 0\<rparr>"

lemma map_update_same: "f x = f (ns ! i) \<Longrightarrow> map f (ns[i := x]) = map f ns"
proof (cases "i < length ns")
  case True
  assume "f x = f (ns ! i)"
  then have "map f (ns[i := x]) = (map f ns)[i := map f ns ! i]"
    using True by (simp add: map_update)
  then show ?thesis by simp
next
  case False
  then have "ns[i := x] = ns" by (simp add: list_update_beyond)
  then show ?thesis by simp
qed

lemma own_part_packet_flags [simp]:
  "own_part (n\<lparr>packet := (packet n)\<lparr>collided := v\<rparr>\<rparr>) = own_part n"
  "own_part (n\<lparr>packet := (packet n)\<lparr>processed := v\<rparr>\<rparr>) = own_part n"
  "own_part (n\<lparr>packet := (packet n)\<lparr>lost := b\<rparr>\<rparr>) = own_part n"
  "own_part (n\<lparr>packet := (packet n)\<lparr>addTime := t\<rparr>\<rparr>) = own_part n"
  by (simp_all add: own_part_def)

lemma own_part_setters [simp]:
  "map own_part (set_collided i v ns) = map own_part ns"
  "map own_part (set_processed i v ns) = map own_part ns"
  "map own_part (set_lost i b ns) = map own_part ns"
  "map own_part (set_addTime i t ns) = map own_part ns"
  by (simp_all add: set_collided_def set_processed_def set_lost_def set_addTime_def
      map_update_same)

lemma own_part_admit [simp]: "map own_part (admit i ns bs) = map own_part ns"
  by (simp add: admit_def)

lemma own_part_check_other:
  "check_other g t i k acc = Inr acc' \<Longrightarrow> map own_part (snd acc') = map own_part (snd acc)"
  by (auto simp add: check_other_def Let_def bind_eq_Inr split: if_splits casualties.splits)

lemma own_part_check_others:
  "check_others g t i ks acc = Inr acc' \<Longrightarrow> map own_part (snd acc') = map own_part (snd acc)"
proof (induction ks arbitrary: acc)
  case Nil
  then show ?case by simp
next
  case (Cons k ks)
  from Cons.prems obtain a1 where
    a: "check_other g t i k acc = Inr a1" and b: "check_others g t i ks a1 = Inr acc'"
    by (auto simp add: bind_eq_Inr)
  show ?case using Cons.IH[OF b] own_part_check_other[OF a] by simp
qed

lemma own_part_cancel_hint [simp]: "own_part (cancel_hint a b n) = own_part n"
  by (simp add: cancel_hint_def own_part_def Let_def)

lemma own_part_cancel_for [simp]: "map own_part (cancel_for k ns) = map own_part ns"
  by (simp add: cancel_for_def)

lemma own_part_cancel_all [simp]: "map own_part (cancel_all bs ns) = map own_part ns"
  unfolding cancel_all_def by (induction bs arbitrary: ns) simp_all

lemma own_part_mark_received [simp]: "own_part (mark_received g t pk n) = own_part n"
  by (simp add: mark_received_def own_part_def Let_def)

lemma own_part_evaluate_arrival:
  "evaluate_arrival g t i ns bs = Inr r \<Longrightarrow> map own_part (snd r) = map own_part ns"
  by (auto simp add: evaluate_arrival_def Let_def bind_eq_Inr
      dest!: own_part_check_others split: if_splits)

lemma own_part_checkcollision:
  "checkcollision g t i ns bs = Inr r \<Longrightarrow> map own_part (snd r) = map own_part ns"
  by (auto simp add: checkcollision_def Let_def bind_eq_Inr comp_def
      dest!: own_part_evaluate_arrival split: if_splits)

lemma own_part_arrive:
  "arrive g fr t i s = Inr s' \<Longrightarrow>
   map own_part (nodes s') = map own_part (nodes s) \<and> pcs s' = pcs s
   \<and> channel_busy_rts s' = channel_busy_rts s \<and> channel_busy_data s' = channel_busy_data s
   \<and> nrProcessed s' = nrProcessed s"
  by (auto simp add: arrive_def Let_def bind_eq_Inr
      dest!: own_part_checkcollision split: if_splits)

lemma own_part_leave:
  "map own_part (nodes (leave i s)) = map own_part (nodes s)"
  by (simp add: leave_def map_update_same own_part_def)

text \<open>
  The part of a step that concerns the stepping node alone: where its generator stands
  next and what the step assigns to the node, apart from what the gateway writes.
  \<open>done\<close> is the value of \<^verbatim>\<open>nrProcessed > targetSentPacket\<close>.
\<close>

definition local_step ::
  "config \<Rightarrow> draw \<Rightarrow> bool \<Rightarrow> bool \<Rightarrow> bool \<Rightarrow> pc \<Rightarrow> myNode \<Rightarrow> error + pc \<times> myNode" where
  "local_step g d brts bdata done l n =
    (case l of
       Loop_top \<Rightarrow>
         if CA g then Inr (At_want_transmit, blk_schedule_tx n)
         else Inr (NoCA_wake, n\<lparr>cycle := cycle n + 1\<rparr>)
     | At_want_transmit \<Rightarrow>
         bind (blk_want_transmit g d brts bdata n) (\<lambda>m. Inr (At_start_CA, m))
     | At_start_CA \<Rightarrow> bind (blk_start_CA g d n) (\<lambda>m. Inr (At_phase1_listen, m))
     | At_phase1_listen \<Rightarrow> bind (blk_phase1_listen g d n) (\<lambda>m. Inr (At_phase1_rts, m))
     | At_phase1_rts \<Rightarrow>
         bind (blk_listen_rts g d start_phase1_listen n) (\<lambda>m. Inr (At_phase2_backoff, m))
     | At_phase2_backoff \<Rightarrow>
         if ca_state n = start_phase2_backoff then Inr (Rts_cca, blk_phase2_backoff g n)
         else Inr (At_phase2_rts, n)
     | Rts_cca \<Rightarrow>
         bind (rts_cca_round g d brts bdata n) (\<lambda>r.
           if fst r then Inr (Rts_cca, snd r)
           else bind (bump (retry_rts_bin (snd r)) (cfg_n_retry_rts g - n_retry_rts (snd r)))
                  (\<lambda>bin. Inr (Rts_on_air,
                     (snd r)\<lparr>n_rts_sent := n_rts_sent (snd r) + 1, retry_rts_bin := bin\<rparr>)))
     | Rts_on_air \<Rightarrow> Inr (At_phase2_rts, n)
     | At_phase2_rts \<Rightarrow> bind (blk_phase2_rts g d n) (\<lambda>m. Inr (At_phase2_listen, m))
     | At_phase2_listen \<Rightarrow>
         bind (blk_phase2_listen g d n) (\<lambda>m. Inr (At_phase2_listen_rts, m))
     | At_phase2_listen_rts \<Rightarrow>
         bind (blk_listen_rts g d start_phase2_listen n) (\<lambda>m. Inr (At_phase3_backoff, m))
     | At_phase3_backoff \<Rightarrow>
         bind (blk_phase3_backoff g n) (\<lambda>m. Inr (At_phase3_transmit, m))
     | At_phase3_transmit \<Rightarrow>
         if ca_state n = start_phase3_transmit \<and> ptype (packet n) = dataPacketType then
           (let n1 = count_cca (check_busy g) brts bdata n
            in if channel_find_busy g d (check_busy g) brts bdata
               then Inr (At_start_nav,
                      n1\<lparr>cca := True, n_retry := n_retry n1 - 1, ca_state := want_transmit\<rparr>)
               else bind (bump (retry_bin n1) (cfg_n_retry g - n_retry n1)) (\<lambda>bin.
                      Inr (Data_on_air,
                        n1\<lparr>n_data_sent := n_data_sent n1 + 1, retry_bin := bin\<rparr>)))
         else Inr (At_start_nav, n)
     | Data_on_air \<Rightarrow>
         Inr (At_start_nav,
           n\<lparr>n_retry := cfg_n_retry g, cca := False, nav := 0, ca_state := schedule_tx\<rparr>)
     | At_start_nav \<Rightarrow> bind (blk_start_nav g n) (\<lambda>m. Inr (Loop_end, m))
     | Loop_end \<Rightarrow> Inr (if done then Finished else Loop_top, n)
     | NoCA_wake \<Rightarrow> Inr (NoCA_cca, n\<lparr>want_transmit_time := clock d\<rparr>)
     | NoCA_cca \<Rightarrow>
         bind (noca_cca_round g d bdata n) (\<lambda>r.
           if fst r then Inr (NoCA_cca, snd r)
           else if n_retry (snd r) = 0 then
             Inr (Loop_end,
               (snd r)\<lparr>n_aborted := n_aborted (snd r) + 1, n_retry := cfg_n_retry g,
                       Wbusy_BE := cfg_Wbusy_BE g\<rparr>)
           else bind (bump (retry_bin (snd r)) (cfg_n_retry g - n_retry (snd r))) (\<lambda>bin.
                  Inr (NoCA_on_air,
                    (snd r)\<lparr>n_data_sent := n_data_sent (snd r) + 1, retry_bin := bin\<rparr>)))
     | NoCA_on_air \<Rightarrow>
         Inr (Loop_end, n\<lparr>n_retry := cfg_n_retry g, Wbusy_BE := cfg_Wbusy_BE g\<rparr>)
     | Finished \<Rightarrow> Inr (Finished, n))"

definition agrees :: "sim \<Rightarrow> nat \<Rightarrow> pc \<Rightarrow> myNode \<Rightarrow> sim \<Rightarrow> bool" where
  "agrees s i l m s' \<longleftrightarrow>
    pcs s' = (pcs s)(i := l) \<and> map own_part (nodes s') = map own_part ((nodes s)[i := m])"

lemma agrees_put: "agrees s i l m (put i m l s)"
  by (simp add: agrees_def put_def)

lemma agrees_goto: "agrees s i l (nodes s ! i) (goto i l s)"
  by (simp add: agrees_def goto_def)

lemma agrees_own:
  "agrees s i l m s' \<Longrightarrow> own_part m' = own_part m \<Longrightarrow> agrees s i l m' s'"
  by (simp add: agrees_def map_update)

lemma agrees_arrive:
  "arrive g fr t i (put i m l s) = Inr s2 \<Longrightarrow> agrees s i l m (s2\<lparr>channel_busy_rts := b\<rparr>)"
  "arrive g fr t i (put i m l s) = Inr s2 \<Longrightarrow> agrees s i l m (s2\<lparr>channel_busy_data := b\<rparr>)"
  by (auto simp add: agrees_def put_def dest!: own_part_arrive)

lemma agrees_leave:
  "agrees s i l (nodes s ! i) (goto i l (leave i (s\<lparr>channel_busy_rts := b\<rparr>)))"
  by (simp add: agrees_def goto_def leave_def map_update_same own_part_def)

lemma run_block_agrees:
  "run_block f l i s = Inr s' \<Longrightarrow> \<exists>m. f (nodes s ! i) = Inr m \<and> agrees s i l m s'"
  by (auto simp add: run_block_def bind_eq_Inr agrees_put)

lemma data_end_agrees:
  "agrees s i At_start_nav
     ((nodes s ! i)\<lparr>n_retry := cfg_n_retry g, cca := False, nav := 0, ca_state := schedule_tx\<rparr>)
     (data_end g i s)"
proof (cases "i < length (nodes s)")
  case True
  then show ?thesis
    by (simp add: agrees_def data_end_def Let_def put_def leave_def count_processed_def
        map_update own_part_def)
next
  case False
  then show ?thesis
    by (simp add: agrees_def data_end_def Let_def put_def leave_def count_processed_def
        list_update_beyond)
qed

lemma noca_end_agrees:
  "agrees s i Loop_end
     ((nodes s ! i)\<lparr>n_retry := cfg_n_retry g, Wbusy_BE := cfg_Wbusy_BE g\<rparr>)
     (noca_end g i s)"
proof (cases "i < length (nodes s)")
  case True
  then show ?thesis
    by (simp add: agrees_def noca_end_def Let_def put_def leave_def count_processed_def
        map_update own_part_def)
next
  case False
  then show ?thesis
    by (simp add: agrees_def noca_end_def Let_def put_def leave_def count_processed_def
        list_update_beyond)
qed

lemma rts_send_agrees:
  assumes "rts_send g d i (put i m Rts_cca s) = Inr s'" and "i < length (nodes s)"
  shows "\<exists>bin. bump (retry_rts_bin m) (cfg_n_retry_rts g - n_retry_rts m) = Inr bin
           \<and> agrees s i Rts_on_air (m\<lparr>n_rts_sent := n_rts_sent m + 1, retry_rts_bin := bin\<rparr>) s'"
proof -
  have nth: "nodes (put i m Rts_cca s) ! i = m" using assms(2) by (simp add: put_def)
  have pp: "put i x Rts_on_air (put i m Rts_cca s) = put i x Rts_on_air s" for x
    by (simp add: put_def)
  from assms(1) obtain bin s2 where
    b: "bump (retry_rts_bin m) (cfg_n_retry_rts g - n_retry_rts m) = Inr bin" and
    a: "arrive g False (clock d) i
          (put i (m\<lparr>n_rts_sent := n_rts_sent m + 1, retry_rts_bin := bin\<rparr>) Rts_on_air s) = Inr s2" and
    e: "s' = s2\<lparr>channel_busy_rts := True\<rparr>"
    by (auto simp add: rts_send_def Let_def nth pp bind_eq_Inr)
  show ?thesis using b agrees_arrive(1)[OF a] e by blast
qed

lemma noca_send_agrees:
  assumes "noca_send g d i (put i m NoCA_cca s) = Inr s'" and "i < length (nodes s)"
  shows "(n_retry m = 0 \<and>
            agrees s i Loop_end
              (m\<lparr>n_aborted := n_aborted m + 1, n_retry := cfg_n_retry g,
                 Wbusy_BE := cfg_Wbusy_BE g\<rparr>) s')
         \<or> (n_retry m \<noteq> 0 \<and>
              (\<exists>bin. bump (retry_bin m) (cfg_n_retry g - n_retry m) = Inr bin
                 \<and> agrees s i NoCA_on_air
                     (m\<lparr>n_data_sent := n_data_sent m + 1, retry_bin := bin\<rparr>) s'))"
proof -
  have nth: "nodes (put i m NoCA_cca s) ! i = m" using assms(2) by (simp add: put_def)
  have pp: "put i x l (put i m NoCA_cca s) = put i x l s" for x l
    by (simp add: put_def)
  show ?thesis
  proof (cases "n_retry m = 0")
    case True
    then show ?thesis
      using assms(1) by (auto simp add: noca_send_def Let_def nth pp agrees_put)
  next
    case False
    from assms(1) False obtain bin s2 where
      b: "bump (retry_bin m) (cfg_n_retry g - n_retry m) = Inr bin" and
      a: "arrive g True (clock d) i
            (put i (m\<lparr>n_data_sent := n_data_sent m + 1, retry_bin := bin\<rparr>) NoCA_on_air s) = Inr s2" and
      e: "s' = s2\<lparr>channel_busy_data := True\<rparr>"
      by (auto simp add: noca_send_def Let_def nth pp bind_eq_Inr)
    show ?thesis using False b agrees_arrive(2)[OF a] e by blast
  qed
qed

lemma phase3_transmit_agrees:
  assumes "phase3_transmit g d i s = Inr s'"
  shows "\<exists>l m. local_step g d (channel_busy_rts s) (channel_busy_data s) done
                  At_phase3_transmit (nodes s ! i) = Inr (l, m) \<and> agrees s i l m s'"
proof (cases "ca_state (nodes s ! i) = start_phase3_transmit
              \<and> ptype (packet (nodes s ! i)) = dataPacketType")
  case False
  then show ?thesis
    using assms by (auto simp add: phase3_transmit_def local_step_def Let_def agrees_goto)
next
  case guard: True
  let ?n1 = "count_cca (check_busy g) (channel_busy_rts s) (channel_busy_data s) (nodes s ! i)"
  show ?thesis
  proof (cases "channel_find_busy g d (check_busy g) (channel_busy_rts s) (channel_busy_data s)")
    case True
    then show ?thesis
      using assms guard
      by (auto simp add: phase3_transmit_def local_step_def Let_def agrees_put)
  next
    case False
    from assms guard False obtain bin s2 where
      b: "bump (retry_bin ?n1) (cfg_n_retry g - n_retry ?n1) = Inr bin" and
      a: "arrive g False (clock d) i
            (put i (?n1\<lparr>n_data_sent := n_data_sent ?n1 + 1, retry_bin := bin\<rparr>) Data_on_air s)
          = Inr s2" and
      e: "s' = s2\<lparr>channel_busy_data := True\<rparr>"
      by (auto simp add: phase3_transmit_def Let_def bind_eq_Inr)
    have "local_step g d (channel_busy_rts s) (channel_busy_data s) done
            At_phase3_transmit (nodes s ! i)
          = Inr (Data_on_air, ?n1\<lparr>n_data_sent := n_data_sent ?n1 + 1, retry_bin := bin\<rparr>)"
      using guard False b by (simp add: local_step_def Let_def)
    then show ?thesis using agrees_arrive(2)[OF a] e by blast
  qed
qed

lemma transmit_step_local:
  assumes st: "transmit_step g d i s = Inr s'" and i: "i < length (nodes s)"
  shows "\<exists>l m. local_step g d (channel_busy_rts s) (channel_busy_data s)
                  (nrProcessed s > targetSentPacket g) (pcs s i) (nodes s ! i) = Inr (l, m)
               \<and> agrees s i l m s'"
proof (cases "pcs s i")
  case Loop_top
  then show ?thesis using st by (auto simp add: transmit_step_def local_step_def Let_def agrees_put)
next
  case At_want_transmit
  then show ?thesis using st
    by (auto simp add: transmit_step_def local_step_def Let_def dest!: run_block_agrees)
next
  case At_start_CA
  then show ?thesis using st
    by (auto simp add: transmit_step_def local_step_def Let_def dest!: run_block_agrees)
next
  case At_phase1_listen
  then show ?thesis using st
    by (auto simp add: transmit_step_def local_step_def Let_def dest!: run_block_agrees)
next
  case At_phase1_rts
  then show ?thesis using st
    by (auto simp add: transmit_step_def local_step_def Let_def dest!: run_block_agrees)
next
  case At_phase2_backoff
  then show ?thesis using st
    by (auto simp add: transmit_step_def local_step_def Let_def agrees_put agrees_goto
        split: if_splits)
next
  case Rts_cca
  from st Rts_cca obtain r where
    r: "rts_cca_round g d (channel_busy_rts s) (channel_busy_data s) (nodes s ! i) = Inr r" and
    k: "(if fst r then Inr (put i (snd r) Rts_cca s)
         else rts_send g d i (put i (snd r) Rts_cca s)) = Inr s'"
    by (auto simp add: transmit_step_def Let_def bind_eq_Inr)
  show ?thesis
  proof (cases "fst r")
    case True
    then show ?thesis using r k Rts_cca
      by (auto simp add: local_step_def agrees_put)
  next
    case False
    then have "rts_send g d i (put i (snd r) Rts_cca s) = Inr s'" using k by simp
    from rts_send_agrees[OF this i] show ?thesis
      using r False Rts_cca by (auto simp add: local_step_def)
  qed
next
  case Rts_on_air
  then show ?thesis using st
    by (auto simp add: transmit_step_def local_step_def Let_def rts_end_def agrees_leave)
next
  case At_phase2_rts
  then show ?thesis using st
    by (auto simp add: transmit_step_def local_step_def Let_def dest!: run_block_agrees)
next
  case At_phase2_listen
  then show ?thesis using st
    by (auto simp add: transmit_step_def local_step_def Let_def dest!: run_block_agrees)
next
  case At_phase2_listen_rts
  then show ?thesis using st
    by (auto simp add: transmit_step_def local_step_def Let_def dest!: run_block_agrees)
next
  case At_phase3_backoff
  then show ?thesis using st
    by (auto simp add: transmit_step_def local_step_def Let_def dest!: run_block_agrees)
next
  case At_phase3_transmit
  then have "phase3_transmit g d i s = Inr s'" using st by (simp add: transmit_step_def Let_def)
  from phase3_transmit_agrees[OF this] show ?thesis using At_phase3_transmit by simp
next
  case Data_on_air
  then show ?thesis using st
    by (auto simp add: transmit_step_def local_step_def Let_def data_end_agrees)
next
  case At_start_nav
  then show ?thesis using st
    by (auto simp add: transmit_step_def local_step_def Let_def dest!: run_block_agrees)
next
  case Loop_end
  then show ?thesis using st
    by (auto simp add: transmit_step_def local_step_def Let_def agrees_goto split: if_splits)
next
  case NoCA_wake
  then show ?thesis using st
    by (auto simp add: transmit_step_def local_step_def Let_def agrees_put)
next
  case NoCA_cca
  from st NoCA_cca obtain r where
    r: "noca_cca_round g d (channel_busy_data s) (nodes s ! i) = Inr r" and
    k: "(if fst r then Inr (put i (snd r) NoCA_cca s)
         else noca_send g d i (put i (snd r) NoCA_cca s)) = Inr s'"
    by (auto simp add: transmit_step_def Let_def bind_eq_Inr)
  show ?thesis
  proof (cases "fst r")
    case True
    then show ?thesis using r k NoCA_cca
      by (auto simp add: local_step_def agrees_put)
  next
    case False
    then have "noca_send g d i (put i (snd r) NoCA_cca s) = Inr s'" using k by simp
    from noca_send_agrees[OF this i] show ?thesis
      using r False NoCA_cca by (auto simp add: local_step_def)
  qed
next
  case NoCA_on_air
  then show ?thesis using st
    by (auto simp add: transmit_step_def local_step_def Let_def noca_end_agrees)
next
  case Finished
  then show ?thesis using st
    by (auto simp add: transmit_step_def local_step_def Let_def agrees_def)
qed

lemma agrees_nodes:
  assumes "agrees s i l m s'"
  shows "length (nodes s') = length (nodes s)"
    and "j < length (nodes s) \<Longrightarrow> j \<noteq> i \<Longrightarrow> own_part (nodes s' ! j) = own_part (nodes s ! j)"
    and "i < length (nodes s) \<Longrightarrow> own_part (nodes s' ! i) = own_part m"
    and "pcs s' = (pcs s)(i := l)"
proof -
  have e: "map own_part (nodes s') = map own_part ((nodes s)[i := m])"
    and p: "pcs s' = (pcs s)(i := l)"
    using assms by (simp_all add: agrees_def)
  show "pcs s' = (pcs s)(i := l)" by (rule p)
  from e have "length (map own_part (nodes s')) = length (map own_part ((nodes s)[i := m]))"
    by simp
  then show len: "length (nodes s') = length (nodes s)" by simp
  have nth: "own_part (nodes s' ! j) = own_part ((nodes s)[i := m] ! j)" if "j < length (nodes s)" for j
    using that len arg_cong[OF e, of "\<lambda>xs. xs ! j"] by simp
  show "j < length (nodes s) \<Longrightarrow> j \<noteq> i \<Longrightarrow> own_part (nodes s' ! j) = own_part (nodes s ! j)"
    using nth[of j] by simp
  show "i < length (nodes s) \<Longrightarrow> own_part (nodes s' ! i) = own_part m"
    using nth[of i] by simp
qed

text \<open>The retry state of a node, which no other node and no gateway action writes.\<close>

definition retry_view :: "myNode \<Rightarrow> int \<times> int \<times> ca_state \<times> int \<times> int \<times> int" where
  "retry_view n = (n_retry n, n_retry_rts n, ca_state n, Wbusy_BE n, n_aborted n, n_data_sent n)"

lemma own_part_retry_view: "own_part n' = own_part n \<Longrightarrow> retry_view n' = retry_view n"
proof -
  assume e: "own_part n' = own_part n"
  have "retry_view (own_part x) = retry_view x" for x
    by (simp add: retry_view_def own_part_def)
  then show ?thesis using arg_cong[OF e, of retry_view] by simp
qed

lemma retry_view_count_cca [simp]:
  "retry_view (count_cca en brts bdata n) = retry_view n"
  "retry_view (count_cca_p1 g brts bdata n) = retry_view n"
  by (simp_all add: count_cca_def count_cca_p1_def retry_view_def Let_def)

lemma draw_backoff_view: "draw_backoff g d n = Inr m \<Longrightarrow> retry_view m = retry_view n"
  by (auto simp add: draw_backoff_def retry_view_def bind_eq_Inr split: if_splits)

lemma retype_view: "retype g t n = Inr m \<Longrightarrow> retry_view m = retry_view n"
  by (auto simp add: retype_def retry_view_def bind_eq_Inr)

lemma grow_BE_fields [simp]:
  "n_retry (grow_BE g n) = n_retry n" "n_retry_rts (grow_BE g n) = n_retry_rts n"
  "ca_state (grow_BE g n) = ca_state n" "n_aborted (grow_BE g n) = n_aborted n"
  "n_data_sent (grow_BE g n) = n_data_sent n"
  by (simp_all add: grow_BE_def)

lemma view_fields:
  "retry_view m = retry_view n \<Longrightarrow>
   n_retry m = n_retry n \<and> n_retry_rts m = n_retry_rts n \<and> ca_state m = ca_state n
   \<and> Wbusy_BE m = Wbusy_BE n \<and> n_aborted m = n_aborted n \<and> n_data_sent m = n_data_sent n"
  by (simp add: retry_view_def)


text \<open>
  How a step of a node can change its retry state
  \<open>(n_retry, n_retry_rts, ca_state, Wbusy_BE, n_aborted, n_data_sent)\<close>, by the place
  \<open>l\<close> at which the generator stands: the retry logic of \<^verbatim>\<open>transmit\<close> with everything
  else abstracted away.
\<close>

definition grown :: "config \<Rightarrow> int \<Rightarrow> int" where
  "grown g be = (if Wbusy_exp_backoff g \<and> be < Wbusy_maxBE g then be + 1 else be)"

inductive retry_move ::
  "config \<Rightarrow> pc \<Rightarrow> int \<times> int \<times> ca_state \<times> int \<times> int \<times> int
   \<Rightarrow> int \<times> int \<times> ca_state \<times> int \<times> int \<times> int \<Rightarrow> bool"
  for g :: config where
  keep: "retry_move g l v v"
| scheduled: "CA g \<Longrightarrow>
    retry_move g Loop_top (r, rr, schedule_tx, be, ab, ds) (r, rr, want_transmit, be, ab, ds)"
| aborted: "retry_move g At_want_transmit (0, rr, want_transmit, be, ab, ds)
    (cfg_n_retry g, rr, want_transmit, cfg_Wbusy_BE g, ab + 1, ds)"
| found_busy: "r \<noteq> 0 \<Longrightarrow>
    retry_move g At_want_transmit (r, rr, want_transmit, be, ab, ds)
      (r - 1, rr, want_transmit, grown g be, ab, ds)"
| found_free: "r \<noteq> 0 \<Longrightarrow>
    retry_move g At_want_transmit (r, rr, want_transmit, be, ab, ds)
      (r, rr, start_CA, be, ab, ds)"
| advanced: "cs \<noteq> schedule_tx \<Longrightarrow> cs \<noteq> want_transmit \<Longrightarrow>
    cs' \<noteq> schedule_tx \<Longrightarrow> cs' \<noteq> want_transmit \<Longrightarrow>
    l \<noteq> NoCA_wake \<Longrightarrow> l \<noteq> NoCA_cca \<Longrightarrow> l \<noteq> NoCA_on_air \<Longrightarrow> l \<noteq> Loop_top \<Longrightarrow>
    retry_move g l (r, rr, cs, be, ab, ds) (r, rr, cs', be, ab, ds)"
| rts_prepared: "retry_move g At_phase2_backoff (r, rr, start_phase2_backoff, be, ab, ds)
    (r, if 0 < cfg_n_retry_rts g then cfg_n_retry_rts g else rr, start_phase2_rts,
     cfg_Wbusy_BE g, ab, ds)"
| rts_busy: "rr \<noteq> 0 \<Longrightarrow>
    retry_move g Rts_cca (r, rr, cs, be, ab, ds)
      (r, if 0 < cfg_n_retry_rts g then rr - 1 else rr, cs, grown g be, ab, ds)"
| data_busy: "retry_move g At_phase3_transmit (r, rr, start_phase3_transmit, be, ab, ds)
    (r - 1, rr, want_transmit, be, ab, ds)"
| data_sent: "l = At_phase3_transmit \<or> l = NoCA_cca \<and> r \<noteq> 0 \<Longrightarrow>
    retry_move g l (r, rr, cs, be, ab, ds) (r, rr, cs, be, ab, ds + 1)"
| data_done: "retry_move g Data_on_air (r, rr, cs, be, ab, ds)
    (cfg_n_retry g, rr, schedule_tx, be, ab, ds)"
| nav_done: "retry_move g At_start_nav (r, rr, start_nav, be, ab, ds)
    (r - 1, rr, want_transmit, be, ab, ds)"
| noca_busy: "r \<noteq> 0 \<Longrightarrow>
    retry_move g NoCA_cca (r, rr, cs, be, ab, ds) (r - 1, rr, cs, grown g be, ab, ds)"
| noca_aborted: "retry_move g NoCA_cca (0, rr, cs, be, ab, ds)
    (cfg_n_retry g, rr, cs, cfg_Wbusy_BE g, ab + 1, ds)"
| noca_done: "retry_move g NoCA_on_air (r, rr, cs, be, ab, ds)
    (cfg_n_retry g, rr, cs, cfg_Wbusy_BE g, ab, ds)"

lemma Wbusy_BE_grow_BE [simp]: "Wbusy_BE (grow_BE g n) = grown g (Wbusy_BE n)"
  by (simp add: grow_BE_def grown_def)

lemma retry_view_grow_BE:
  "retry_view (grow_BE g n) =
     (n_retry n, n_retry_rts n, ca_state n, grown g (Wbusy_BE n), n_aborted n, n_data_sent n)"
  by (simp add: retry_view_def)

lemma retry_view_eq:
  "retry_view n = (n_retry n, n_retry_rts n, ca_state n, Wbusy_BE n, n_aborted n, n_data_sent n)"
  by (simp add: retry_view_def)

lemma blk_want_transmit_move:
  assumes "blk_want_transmit g d brts bdata n = Inr m"
  shows "retry_move g At_want_transmit (retry_view n) (retry_view m)"
proof (cases "ca_state n = want_transmit \<and> ptype (packet n) = dataPacketType")
  case False
  then show ?thesis using assms by (auto simp add: blk_want_transmit_def intro: retry_move.keep)
next
  case guard: True
  show ?thesis
  proof (cases "n_retry n = 0")
    case True
    then have "retry_view m = (cfg_n_retry g, n_retry_rts n, want_transmit, cfg_Wbusy_BE g,
                               n_aborted n + 1, n_data_sent n)"
      using assms guard by (auto simp add: blk_want_transmit_def retry_view_def)
    moreover have "retry_view n = (0, n_retry_rts n, want_transmit, Wbusy_BE n,
                                   n_aborted n, n_data_sent n)"
      using True guard by (simp add: retry_view_def)
    ultimately show ?thesis by (simp add: retry_move.aborted)
  next
    case False
    let ?n1 = "(if cca n then n\<lparr>cca := False\<rparr>
                else if nav n \<noteq> 0 then
                  (if W2afterNAV g \<noteq> cfg_W2 g then n\<lparr>nav := 0, W2 := W2afterNAV g\<rparr>
                   else n\<lparr>nav := 0, W2 := cfg_W2 g\<rparr>)
                else n\<lparr>want_transmit_time := clock d\<rparr>)"
    let ?n2 = "count_cca_p1 g brts bdata ?n1"
    have "retry_view ?n2 = retry_view ?n1" by (simp only: retry_view_count_cca)
    also have "\<dots> = retry_view n" by (simp add: retry_view_def)
    finally have v2: "retry_view ?n2 = retry_view n" .
    have vn: "retry_view n = (n_retry n, n_retry_rts n, want_transmit, Wbusy_BE n,
                              n_aborted n, n_data_sent n)"
      using guard by (simp add: retry_view_def)
    show ?thesis
    proof (cases "channel_find_busy g d (check_busy g) brts bdata")
      case True
      from assms guard False True obtain n3 where
        b: "draw_backoff g d ?n2 = Inr n3" and
        m: "m = (grow_BE g (n3\<lparr>cca := True\<rparr>))\<lparr>n_retry := n_retry (grow_BE g (n3\<lparr>cca := True\<rparr>)) - 1\<rparr>"
        by (auto simp add: blk_want_transmit_def Let_def bind_eq_Inr)
      have "retry_view n3 = retry_view n" using draw_backoff_view[OF b] v2 by simp
      note f = view_fields[OF this]
      have "retry_view m = (n_retry n - 1, n_retry_rts n, want_transmit, grown g (Wbusy_BE n),
                            n_aborted n, n_data_sent n)"
        using f guard by (simp add: m retry_view_def)
      then show ?thesis using vn False by (simp add: retry_move.found_busy)
    next
      case free: False
      from assms guard False free obtain r where
        m: "retype g rtsPacketType (?n2\<lparr>my_P := r, ca_state := start_CA\<rparr>) = Inr m"
        by (auto simp add: blk_want_transmit_def Let_def bind_eq_Inr)
      have "retry_view m = retry_view (?n2\<lparr>my_P := r, ca_state := start_CA\<rparr>)"
        using retype_view[OF m] .
      also have "\<dots> = (n_retry n, n_retry_rts n, start_CA, Wbusy_BE n, n_aborted n, n_data_sent n)"
        using view_fields[OF v2] by (simp add: retry_view_def)
      finally show ?thesis using vn False by (simp add: retry_move.found_free)
    qed
  qed
qed

lemma advance_move:
  assumes "n_retry m = n_retry n" and "n_retry_rts m = n_retry_rts n"
    and "Wbusy_BE m = Wbusy_BE n" and "n_aborted m = n_aborted n"
    and "n_data_sent m = n_data_sent n"
    and "ca_state m = ca_state n
         \<or> (ca_state n \<noteq> schedule_tx \<and> ca_state n \<noteq> want_transmit
            \<and> ca_state m \<noteq> schedule_tx \<and> ca_state m \<noteq> want_transmit)"
    and "l \<noteq> NoCA_wake" and "l \<noteq> NoCA_cca" and "l \<noteq> NoCA_on_air" and "l \<noteq> Loop_top"
  shows "retry_move g l (retry_view n) (retry_view m)"
proof (cases "ca_state m = ca_state n")
  case True
  then have "retry_view m = retry_view n" using assms(1-5) by (simp add: retry_view_def)
  then show ?thesis by (simp add: retry_move.keep)
next
  case False
  then show ?thesis
    unfolding retry_view_def using assms by (simp add: retry_move.advanced)
qed

lemma blk_start_CA_move:
  "blk_start_CA g d n = Inr m \<Longrightarrow> retry_move g At_start_CA (retry_view n) (retry_view m)"
  by (rule advance_move) (auto simp add: blk_start_CA_def bind_eq_Inr split: if_splits)

lemma blk_phase1_listen_move:
  "blk_phase1_listen g d n = Inr m \<Longrightarrow>
   retry_move g At_phase1_listen (retry_view n) (retry_view m)"
  by (rule advance_move) (auto simp add: blk_phase1_listen_def bind_eq_Inr split: if_splits)

lemma blk_listen_rts_move:
  "blk_listen_rts g d cs n = Inr m \<Longrightarrow> cs \<noteq> schedule_tx \<Longrightarrow> cs \<noteq> want_transmit \<Longrightarrow>
   l = At_phase1_rts \<or> l = At_phase2_listen_rts \<Longrightarrow>
   retry_move g l (retry_view n) (retry_view m)"
  by (rule advance_move) (auto simp add: blk_listen_rts_def bind_eq_Inr split: if_splits)

lemma blk_phase2_rts_move:
  "blk_phase2_rts g d n = Inr m \<Longrightarrow> retry_move g At_phase2_rts (retry_view n) (retry_view m)"
  by (rule advance_move) (auto simp add: blk_phase2_rts_def bind_eq_Inr split: if_splits)

lemma blk_phase2_listen_move:
  "blk_phase2_listen g d n = Inr m \<Longrightarrow>
   retry_move g At_phase2_listen (retry_view n) (retry_view m)"
  by (rule advance_move) (auto simp add: blk_phase2_listen_def bind_eq_Inr split: if_splits)

lemma blk_phase3_backoff_move:
  assumes "blk_phase3_backoff g n = Inr m"
  shows "retry_move g At_phase3_backoff (retry_view n) (retry_view m)"
proof (cases "ca_state n = start_phase3_backoff")
  case False
  then show ?thesis using assms by (simp add: blk_phase3_backoff_def retry_move.keep)
next
  case True
  then have "retype g dataPacketType (n\<lparr>ca_state := start_phase3_transmit\<rparr>) = Inr m"
    using assms by (simp add: blk_phase3_backoff_def)
  from view_fields[OF retype_view[OF this]] True show ?thesis
    by (intro advance_move) (simp_all add: retry_view_def)
qed

lemma blk_start_nav_move:
  assumes "blk_start_nav g n = Inr m"
  shows "retry_move g At_start_nav (retry_view n) (retry_view m)"
proof (cases "ca_state n = start_nav")
  case False
  then show ?thesis using assms by (simp add: blk_start_nav_def retry_move.keep)
next
  case True
  then obtain k where
    k: "retype g dataPacketType (n\<lparr>ca_state := want_transmit\<rparr>) = Inr k" and
    m: "m = k\<lparr>n_retry := n_retry k - 1\<rparr>"
    using assms by (auto simp add: blk_start_nav_def bind_eq_Inr)
  from view_fields[OF retype_view[OF k]] have
    "retry_view m = (n_retry n - 1, n_retry_rts n, want_transmit, Wbusy_BE n,
                     n_aborted n, n_data_sent n)"
    by (simp add: m retry_view_def)
  moreover have "retry_view n = (n_retry n, n_retry_rts n, start_nav, Wbusy_BE n,
                                 n_aborted n, n_data_sent n)"
    using True by (simp add: retry_view_def)
  ultimately show ?thesis by (simp add: retry_move.nav_done)
qed

lemma rts_cca_round_move:
  assumes "rts_cca_round g d brts bdata n = Inr r"
  shows "if fst r then retry_move g Rts_cca (retry_view n) (retry_view (snd r))
         else retry_view (snd r) = retry_view n"
proof (cases "n_retry_rts n \<noteq> 0
              \<and> channel_find_busy g d (check_busy_rts g) brts bdata")
  case False
  then show ?thesis using assms
    by (auto simp add: rts_cca_round_def Let_def split: if_splits)
next
  case True
  let ?n1 = "count_cca (check_busy_rts g) brts bdata n"
  from assms True obtain n2 where
    b: "draw_backoff g d ?n1 = Inr n2" and
    r: "r = (True, if cfg_n_retry_rts g > 0
                   then (grow_BE g n2)\<lparr>n_retry_rts := n_retry_rts (grow_BE g n2) - 1\<rparr>
                   else grow_BE g n2)"
    by (auto simp add: rts_cca_round_def Let_def bind_eq_Inr)
  have "retry_view n2 = retry_view n" using draw_backoff_view[OF b] by simp
  note f = view_fields[OF this]
  have "retry_view (snd r) =
          (n_retry n, if 0 < cfg_n_retry_rts g then n_retry_rts n - 1 else n_retry_rts n,
           ca_state n, grown g (Wbusy_BE n), n_aborted n, n_data_sent n)"
    using f by (simp add: r retry_view_def)
  then show ?thesis
    using True by (simp add: r retry_view_eq[of n] retry_move.rts_busy)
qed

lemma noca_cca_round_move:
  assumes "noca_cca_round g d bdata n = Inr r"
  shows "if fst r then retry_move g NoCA_cca (retry_view n) (retry_view (snd r))
         else retry_view (snd r) = retry_view n"
proof (cases "n_retry n \<noteq> 0 \<and> check_busy g \<and> bdata \<and> cca_detects g d")
  case False
  then show ?thesis using assms
    by (auto simp add: noca_cca_round_def Let_def retry_view_def split: if_splits)
next
  case True
  let ?n1 = "(let m = n\<lparr>n_cca := n_cca n + 1\<rparr>
              in if bdata then m\<lparr>n_busy_data := n_busy_data m + 1\<rparr> else m)"
  from assms True obtain n2 where
    b: "draw_backoff g d ?n1 = Inr n2" and
    r: "r = (True, (grow_BE g n2)\<lparr>n_retry := n_retry (grow_BE g n2) - 1\<rparr>)"
    by (auto simp add: noca_cca_round_def Let_def bind_eq_Inr split: if_splits)
  have "retry_view ?n1 = retry_view n" by (simp add: retry_view_def Let_def)
  then have "retry_view n2 = retry_view n" using draw_backoff_view[OF b] by simp
  note f = view_fields[OF this]
  have "retry_view (snd r) =
          (n_retry n - 1, n_retry_rts n, ca_state n, grown g (Wbusy_BE n),
           n_aborted n, n_data_sent n)"
    using f by (simp add: r retry_view_def)
  then show ?thesis
    using True by (simp add: r retry_view_eq[of n] retry_move.noca_busy)
qed

text \<open>With CA the generator never stands in the part without CA, and conversely.\<close>

definition pc_ok :: "config \<Rightarrow> pc \<Rightarrow> bool" where
  "pc_ok g l \<longleftrightarrow>
    (if CA g then l \<noteq> NoCA_wake \<and> l \<noteq> NoCA_cca \<and> l \<noteq> NoCA_on_air
     else l = Loop_top \<or> l = NoCA_wake \<or> l = NoCA_cca \<or> l = NoCA_on_air \<or> l = Loop_end
          \<or> l = Finished)"

lemma local_step_move:
  assumes "local_step g d brts bdata done l n = Inr (l', m)"
  shows "retry_move g l (retry_view n) (retry_view m)"
proof (cases l)
  case Loop_top
  show ?thesis
  proof (cases "CA g \<and> ca_state n = schedule_tx")
    case True
    then have "m = n\<lparr>cycle := cycle n + 1, ca_state := want_transmit\<rparr>"
      using assms Loop_top by (simp add: local_step_def blk_schedule_tx_def)
    then show ?thesis using True
      by (simp add: Loop_top retry_view_def retry_move.scheduled)
  next
    case False
    then have "retry_view m = retry_view n"
      using assms Loop_top
      by (auto simp add: local_step_def blk_schedule_tx_def retry_view_def split: if_splits)
    then show ?thesis by (simp add: retry_move.keep)
  qed
next
  case At_want_transmit
  then show ?thesis using assms
    by (auto simp add: local_step_def bind_eq_Inr dest: blk_want_transmit_move)
next
  case At_start_CA
  then show ?thesis using assms
    by (auto simp add: local_step_def bind_eq_Inr dest: blk_start_CA_move)
next
  case At_phase1_listen
  then show ?thesis using assms
    by (auto simp add: local_step_def bind_eq_Inr dest: blk_phase1_listen_move)
next
  case At_phase1_rts
  then show ?thesis using assms
    by (auto simp add: local_step_def bind_eq_Inr intro: blk_listen_rts_move)
next
  case At_phase2_backoff
  show ?thesis
  proof (cases "ca_state n = start_phase2_backoff")
    case True
    then have "m = blk_phase2_backoff g n"
      using assms At_phase2_backoff by (simp add: local_step_def)
    then have "retry_view m =
        (n_retry n, if 0 < cfg_n_retry_rts g then cfg_n_retry_rts g else n_retry_rts n,
         start_phase2_rts, cfg_Wbusy_BE g, n_aborted n, n_data_sent n)"
      by (simp add: blk_phase2_backoff_def retry_view_def Let_def)
    then show ?thesis using True
      by (simp add: At_phase2_backoff retry_view_eq[of n] retry_move.rts_prepared)
  next
    case False
    then show ?thesis using assms At_phase2_backoff
      by (simp add: local_step_def retry_move.keep)
  qed
next
  case Rts_cca
  from assms Rts_cca obtain r where
    r: "rts_cca_round g d brts bdata n = Inr r" and
    k: "(if fst r then Inr (Rts_cca, snd r)
         else bind (bump (retry_rts_bin (snd r)) (cfg_n_retry_rts g - n_retry_rts (snd r)))
                (\<lambda>bin. Inr (Rts_on_air,
                   (snd r)\<lparr>n_rts_sent := n_rts_sent (snd r) + 1, retry_rts_bin := bin\<rparr>)))
        = Inr (l', m)"
    by (auto simp add: local_step_def bind_eq_Inr)
  show ?thesis
  proof (cases "fst r")
    case True
    then show ?thesis using k rts_cca_round_move[OF r] Rts_cca by auto
  next
    case False
    then have "retry_view m = retry_view (snd r)"
      using k by (auto simp add: bind_eq_Inr retry_view_def)
    then show ?thesis using rts_cca_round_move[OF r] False by (simp add: retry_move.keep)
  qed
next
  case Rts_on_air
  then show ?thesis using assms by (simp add: local_step_def retry_move.keep)
next
  case At_phase2_rts
  then show ?thesis using assms
    by (auto simp add: local_step_def bind_eq_Inr dest: blk_phase2_rts_move)
next
  case At_phase2_listen
  then show ?thesis using assms
    by (auto simp add: local_step_def bind_eq_Inr dest: blk_phase2_listen_move)
next
  case At_phase2_listen_rts
  then show ?thesis using assms
    by (auto simp add: local_step_def bind_eq_Inr intro: blk_listen_rts_move)
next
  case At_phase3_backoff
  then show ?thesis using assms
    by (auto simp add: local_step_def bind_eq_Inr dest: blk_phase3_backoff_move)
next
  case At_phase3_transmit
  show ?thesis
  proof (cases "ca_state n = start_phase3_transmit \<and> ptype (packet n) = dataPacketType")
    case False
    then show ?thesis using assms At_phase3_transmit
      by (auto simp add: local_step_def retry_move.keep)
  next
    case guard: True
    let ?n1 = "count_cca (check_busy g) brts bdata n"
    have f: "n_retry ?n1 = n_retry n" "n_retry_rts ?n1 = n_retry_rts n"
      "Wbusy_BE ?n1 = Wbusy_BE n" "n_aborted ?n1 = n_aborted n" "n_data_sent ?n1 = n_data_sent n"
      "ca_state ?n1 = ca_state n"
      using view_fields[OF retry_view_count_cca(1)[of "check_busy g" brts bdata n]] by simp_all
    show ?thesis
    proof (cases "channel_find_busy g d (check_busy g) brts bdata")
      case True
      then have "m = ?n1\<lparr>cca := True, n_retry := n_retry ?n1 - 1, ca_state := want_transmit\<rparr>"
        using assms At_phase3_transmit guard by (simp add: local_step_def Let_def)
      then have "retry_view m = (n_retry n - 1, n_retry_rts n, want_transmit, Wbusy_BE n,
                                 n_aborted n, n_data_sent n)"
        using f by (simp add: retry_view_def)
      then show ?thesis using guard
        by (simp add: At_phase3_transmit retry_view_eq[of n] retry_move.data_busy)
    next
      case False
      then obtain bin where
        "m = ?n1\<lparr>n_data_sent := n_data_sent ?n1 + 1, retry_bin := bin\<rparr>"
        using assms At_phase3_transmit guard
        by (auto simp add: local_step_def Let_def bind_eq_Inr)
      then have "retry_view m = (n_retry n, n_retry_rts n, ca_state n, Wbusy_BE n,
                                 n_aborted n, n_data_sent n + 1)"
        using f by (simp add: retry_view_def)
      then show ?thesis
        by (simp add: At_phase3_transmit retry_view_eq[of n] retry_move.data_sent)
    qed
  qed
next
  case Data_on_air
  then have "m = n\<lparr>n_retry := cfg_n_retry g, cca := False, nav := 0, ca_state := schedule_tx\<rparr>"
    using assms by (simp add: local_step_def)
  then have "retry_view m = (cfg_n_retry g, n_retry_rts n, schedule_tx, Wbusy_BE n,
                             n_aborted n, n_data_sent n)"
    by (simp add: retry_view_def)
  then show ?thesis by (simp add: Data_on_air retry_view_eq[of n] retry_move.data_done)
next
  case At_start_nav
  then show ?thesis using assms
    by (auto simp add: local_step_def bind_eq_Inr dest: blk_start_nav_move)
next
  case Loop_end
  then show ?thesis using assms by (simp add: local_step_def retry_move.keep)
next
  case NoCA_wake
  then have "retry_view m = retry_view n"
    using assms by (auto simp add: local_step_def retry_view_def)
  then show ?thesis by (simp add: retry_move.keep)
next
  case NoCA_cca
  from assms NoCA_cca obtain r where
    r: "noca_cca_round g d bdata n = Inr r" and
    k: "(if fst r then Inr (NoCA_cca, snd r)
         else if n_retry (snd r) = 0 then
           Inr (Loop_end,
             (snd r)\<lparr>n_aborted := n_aborted (snd r) + 1, n_retry := cfg_n_retry g,
                     Wbusy_BE := cfg_Wbusy_BE g\<rparr>)
         else bind (bump (retry_bin (snd r)) (cfg_n_retry g - n_retry (snd r))) (\<lambda>bin.
                Inr (NoCA_on_air,
                  (snd r)\<lparr>n_data_sent := n_data_sent (snd r) + 1, retry_bin := bin\<rparr>)))
        = Inr (l', m)"
    by (auto simp add: local_step_def bind_eq_Inr)
  show ?thesis
  proof (cases "fst r")
    case True
    then show ?thesis using k noca_cca_round_move[OF r] NoCA_cca by auto
  next
    case False
    then have "retry_view (snd r) = retry_view n" using noca_cca_round_move[OF r] by simp
    note f = view_fields[OF this]
    show ?thesis
    proof (cases "n_retry (snd r) = 0")
      case True
      then have "retry_view m = (cfg_n_retry g, n_retry_rts n, ca_state n, cfg_Wbusy_BE g,
                                 n_aborted n + 1, n_data_sent n)"
        using k False f by (auto simp add: retry_view_def)
      moreover have "retry_view n = (0, n_retry_rts n, ca_state n, Wbusy_BE n,
                                     n_aborted n, n_data_sent n)"
        using True f by (simp add: retry_view_def)
      ultimately show ?thesis by (simp add: NoCA_cca retry_move.noca_aborted)
    next
      case nz: False
      then have "retry_view m = (n_retry n, n_retry_rts n, ca_state n, Wbusy_BE n,
                                 n_aborted n, n_data_sent n + 1)"
        using k False f by (auto simp add: retry_view_def bind_eq_Inr)
      then show ?thesis using nz f
        by (simp add: NoCA_cca retry_view_eq[of n] retry_move.data_sent)
    qed
  qed
next
  case NoCA_on_air
  then have "m = n\<lparr>n_retry := cfg_n_retry g, Wbusy_BE := cfg_Wbusy_BE g\<rparr>"
    using assms by (simp add: local_step_def)
  then have "retry_view m = (cfg_n_retry g, n_retry_rts n, ca_state n, cfg_Wbusy_BE g,
                             n_aborted n, n_data_sent n)"
    by (simp add: retry_view_def)
  then show ?thesis by (simp add: NoCA_on_air retry_view_eq[of n] retry_move.noca_done)
next
  case Finished
  then show ?thesis using assms by (simp add: local_step_def retry_move.keep)
qed

lemma local_step_pc:
  assumes "local_step g d brts bdata done l n = Inr (l', m)" and "pc_ok g l"
  shows "pc_ok g l'"
  using assms
  by (cases l) (auto simp add: local_step_def pc_ok_def bind_eq_Inr Let_def split: if_splits)

text \<open>A step of node \<open>i\<close>, seen on the retry state of every node.\<close>

lemma transmit_step_moves:
  assumes st: "transmit_step g d i s = Inr s'" and i: "i < length (nodes s)"
  shows "length (nodes s') = length (nodes s)"
    and "retry_move g (pcs s i) (retry_view (nodes s ! i)) (retry_view (nodes s' ! i))"
    and "pc_ok g (pcs s i) \<Longrightarrow> pc_ok g (pcs s' i)"
    and "j < length (nodes s) \<Longrightarrow> j \<noteq> i \<Longrightarrow>
         retry_view (nodes s' ! j) = retry_view (nodes s ! j) \<and> pcs s' j = pcs s j"
proof -
  from transmit_step_local[OF st i] obtain l m where
    ls: "local_step g d (channel_busy_rts s) (channel_busy_data s)
           (nrProcessed s > targetSentPacket g) (pcs s i) (nodes s ! i) = Inr (l, m)" and
    ag: "agrees s i l m s'"
    by blast
  note a = agrees_nodes[OF ag]
  show "length (nodes s') = length (nodes s)" by (rule a(1))
  have "retry_view (nodes s' ! i) = retry_view m"
    using a(3)[OF i] by (rule own_part_retry_view)
  then show "retry_move g (pcs s i) (retry_view (nodes s ! i)) (retry_view (nodes s' ! i))"
    using local_step_move[OF ls] by simp
  show "pc_ok g (pcs s i) \<Longrightarrow> pc_ok g (pcs s' i)"
    using local_step_pc[OF ls] a(4) by simp
  show "j < length (nodes s) \<Longrightarrow> j \<noteq> i \<Longrightarrow>
        retry_view (nodes s' ! j) = retry_view (nodes s ! j) \<and> pcs s' j = pcs s j"
    using own_part_retry_view[OF a(2)[of j]] a(4) by simp
qed

text \<open>
  The invariant behind C4: the bounds, that a node past \<^verbatim>\<open>want_transmit\<close> has a retry
  left, and that without CA a node never leaves \<^verbatim>\<open>schedule_tx\<close>.
\<close>

definition retry_ok :: "config \<Rightarrow> int \<times> int \<times> ca_state \<times> int \<times> int \<times> int \<Rightarrow> bool" where
  "retry_ok g v \<longleftrightarrow>
    (case v of (r, rr, cs, be, ab, ds) \<Rightarrow>
       0 \<le> r \<and> r \<le> cfg_n_retry g
       \<and> (cs = schedule_tx \<or> cs = want_transmit \<or> 1 \<le> r)
       \<and> (CA g \<or> cs = schedule_tx)
       \<and> (if 0 < cfg_n_retry_rts g then 0 \<le> rr \<and> rr \<le> cfg_n_retry_rts g else rr = 1))"

lemma retry_move_ok:
  assumes mv: "retry_move g l v v'" and ok: "retry_ok g v" and pc: "pc_ok g l"
    and cfg: "0 \<le> cfg_n_retry g"
  shows "retry_ok g v'"
  using mv
proof cases
  case keep
  then show ?thesis using ok by simp
next
  case (scheduled r rr be ab ds)
  then show ?thesis using ok pc cfg by (auto simp add: retry_ok_def pc_ok_def split: if_splits)
next
  case (aborted rr be ab ds)
  then show ?thesis using ok pc cfg by (auto simp add: retry_ok_def pc_ok_def split: if_splits)
next
  case (found_busy r rr be ab ds)
  then show ?thesis using ok pc cfg by (auto simp add: retry_ok_def pc_ok_def split: if_splits)
next
  case (found_free r rr be ab ds)
  then show ?thesis using ok pc cfg by (auto simp add: retry_ok_def pc_ok_def split: if_splits)
next
  case (advanced cs cs' r rr be ab ds)
  then show ?thesis using ok pc cfg by (auto simp add: retry_ok_def pc_ok_def split: if_splits)
next
  case (rts_prepared r rr be ab ds)
  then show ?thesis using ok pc cfg by (auto simp add: retry_ok_def pc_ok_def split: if_splits)
next
  case (rts_busy rr r cs be ab ds)
  then show ?thesis using ok by (auto simp add: retry_ok_def split: if_splits)
next
  case (data_busy r rr be ab ds)
  then show ?thesis using ok pc cfg by (auto simp add: retry_ok_def pc_ok_def split: if_splits)
next
  case (data_sent r rr cs be ab ds)
  then show ?thesis using ok pc cfg by (auto simp add: retry_ok_def pc_ok_def split: if_splits)
next
  case (data_done r rr cs be ab ds)
  then show ?thesis using ok pc cfg by (auto simp add: retry_ok_def pc_ok_def split: if_splits)
next
  case (nav_done r rr be ab ds)
  then show ?thesis using ok pc cfg by (auto simp add: retry_ok_def pc_ok_def split: if_splits)
next
  case (noca_busy r rr cs be ab ds)
  then show ?thesis using ok pc by (auto simp add: retry_ok_def pc_ok_def)
next
  case (noca_aborted rr cs be ab ds)
  then show ?thesis using ok pc cfg by (auto simp add: retry_ok_def pc_ok_def split: if_splits)
next
  case (noca_done r rr cs be ab ds)
  then show ?thesis using ok pc cfg by (auto simp add: retry_ok_def pc_ok_def split: if_splits)
qed

definition retry_inv :: "config \<Rightarrow> sim \<Rightarrow> bool" where
  "retry_inv g s \<longleftrightarrow>
    (\<forall>j < length (nodes s). retry_ok g (retry_view (nodes s ! j)) \<and> pc_ok g (pcs s j))"

lemma retry_inv_initial:
  "0 \<le> cfg_n_retry g \<Longrightarrow> retry_inv g (initial g pks)"
  by (simp add: retry_inv_def initial_def retry_ok_def retry_view_def myNode_init_def pc_ok_def)

lemma retry_inv_step:
  assumes "retry_inv g s" and "0 \<le> cfg_n_retry g" and "i < length (nodes s)"
    and "transmit_step g d i s = Inr s'"
  shows "retry_inv g s'"
proof -
  note m = transmit_step_moves[OF assms(4,3)]
  show ?thesis
    unfolding retry_inv_def
  proof (intro allI impI)
    fix j assume "j < length (nodes s')"
    then have j: "j < length (nodes s)" using m(1) by simp
    then have ok: "retry_ok g (retry_view (nodes s ! j))" "pc_ok g (pcs s j)"
      using assms(1) by (simp_all add: retry_inv_def)
    show "retry_ok g (retry_view (nodes s' ! j)) \<and> pc_ok g (pcs s' j)"
    proof (cases "j = i")
      case True
      then show ?thesis
        using retry_move_ok[OF m(2) _ _ assms(2)] m(3) ok by simp
    next
      case False
      then show ?thesis using m(4)[OF j False] ok by simp
    qed
  qed
qed

lemma reachable_retry_inv:
  "reachable g s \<Longrightarrow> 0 \<le> cfg_n_retry g \<Longrightarrow> retry_inv g s"
  by (induction rule: reachable.induct) (auto intro: retry_inv_initial retry_inv_step)

subsection \<open>Running a schedule\<close>

text \<open>
  A schedule names, step by step, the node that runs and what it draws. It serves to
  exhibit reachable states.
\<close>

fun run :: "config \<Rightarrow> (nat \<times> draw) list \<Rightarrow> sim \<Rightarrow> error + sim" where
  "run g [] s = Inr s"
| "run g (x # xs) s = bind (transmit_step g (snd x) (fst x) s) (run g xs)"

definition state_after :: "config \<Rightarrow> (nat \<times> draw) list \<Rightarrow> sim \<Rightarrow> sim" where
  "state_after g xs s = (case run g xs s of Inr s' \<Rightarrow> s' | Inl e \<Rightarrow> s)"

definition succeeds :: "config \<Rightarrow> (nat \<times> draw) list \<Rightarrow> sim \<Rightarrow> bool" where
  "succeeds g xs s = (case run g xs s of Inr s' \<Rightarrow> True | Inl e \<Rightarrow> False)"

definition failure :: "error + sim \<Rightarrow> error option" where
  "failure r = (case r of Inr s' \<Rightarrow> None | Inl e \<Rightarrow> Some e)"


lemma run_reachable:
  "reachable g s \<Longrightarrow> \<forall>x \<in> set xs. fst x < length (nodes s) \<Longrightarrow> run g xs s = Inr s'
   \<Longrightarrow> reachable g s'"
proof (induction xs arbitrary: s)
  case Nil
  then show ?case by simp
next
  case (Cons x xs)
  from Cons.prems(3) obtain s1 where
    a: "transmit_step g (snd x) (fst x) s = Inr s1" and b: "run g xs s1 = Inr s'"
    by (auto simp add: bind_eq_Inr)
  have i: "fst x < length (nodes s)" using Cons.prems(2) by simp
  have r1: "reachable g s1" using Cons.prems(1) i a by (rule reachable.step)
  have "length (nodes s1) = length (nodes s)" using transmit_step_moves(1)[OF a i] .
  then have "\<forall>y \<in> set xs. fst y < length (nodes s1)" using Cons.prems(2) by simp
  then show ?case using Cons.IH[OF r1 _ b] by simp
qed

lemma succeeds_run: "succeeds g xs s \<Longrightarrow> run g xs s = Inr (state_after g xs s)"
  by (simp add: succeeds_def state_after_def split: sum.splits)

lemma state_after_reachable:
  "reachable g s \<Longrightarrow> \<forall>x \<in> set xs. fst x < length (nodes s) \<Longrightarrow> succeeds g xs s
   \<Longrightarrow> reachable g (state_after g xs s)"
  using run_reachable succeeds_run by blast

subsection \<open>Two nodes: an RTS on the air and a busy channel\<close>

definition two_nodes :: sim where
  "two_nodes = initial default_config [pkt0, pkt0\<lparr>p_nodeid := 1\<rparr>]"

text \<open>
  Draws at clock value \<open>t\<close>: \<open>quiet\<close> has the carrier sense miss a busy channel (it
  draws 100 against \<^verbatim>\<open>CCA_prob = 50\<close>), \<open>alert\<close> has it detect one (it draws 1); both
  take the least value of every other \<^verbatim>\<open>randint\<close>.
\<close>

definition quiet :: "real \<Rightarrow> draw" where
  "quiet t = \<lparr>clock = t, roll = 100, pick = 0\<rparr>"

definition alert :: "real \<Rightarrow> draw" where
  "alert t = \<lparr>clock = t, roll = 1, pick = 0\<rparr>"

text \<open>
  Node 1 runs from the top of its loop to the airtime wait of its RTS (seven steps).
  Then node 0 wants to transmit, finds the channel busy at \<^verbatim>\<open>want_transmit\<close> and backs
  off, falls through the rest of the loop body, comes back to \<^verbatim>\<open>want_transmit\<close>, misses
  the busy channel this time and proceeds to \<^verbatim>\<open>start_phase2_backoff\<close>.
\<close>

definition rts_of_node1 :: "(nat \<times> draw) list" where
  "rts_of_node1 = replicate 7 (1, quiet 2000)"

definition busy_then_free :: "(nat \<times> draw) list" where
  "busy_then_free =
     [(0, quiet 2100), (0, alert 2100)] @ replicate 12 (0, quiet 2100)
     @ replicate 4 (0, quiet 2501)"

lemma builtI: "myPacket_init g (int k) plen s b c f prx = Inr pk \<Longrightarrow> built g k pk"
  unfolding built_def by blast

lemma two_nodes_reachable: "reachable default_config two_nodes"
  unfolding two_nodes_def
proof (rule reachable.start)
  fix k assume "k < length [pkt0, pkt0\<lparr>p_nodeid := 1\<rparr>]"
  then consider "k = 0" | "k = 1" by fastforce
  then show "built default_config k ([pkt0, pkt0\<lparr>p_nodeid := 1\<rparr>] ! k)"
  proof cases
    case 1
    have "built default_config 0 pkt0"
      by (rule builtI[where plen = 104 and s = 12 and b = 125 and c = 1
            and f = 0 and prx = "- 100"]) (simp add: pkt0_init)
    then show ?thesis using 1 by simp
  next
    case 2
    have "built default_config 1 (pkt0\<lparr>p_nodeid := 1\<rparr>)"
      by (rule builtI[where plen = 104 and s = 12 and b = 125 and c = 1
            and f = 0 and prx = "- 100"])
         (simp add: myPacket_init_def carrier_def default_config_def airtime_def Let_def pkt0_def)
    then show ?thesis using 2 by simp
  qed
qed

lemma two_nodes_length: "length (nodes two_nodes) = 2"
  by (simp add: two_nodes_def initial_def)

lemma schedule_succeeds:
  "succeeds default_config (rts_of_node1 @ busy_then_free) two_nodes"
  by code_simp

lemma schedule_reachable:
  "reachable default_config
     (state_after default_config (rts_of_node1 @ busy_then_free) two_nodes)"
  by (rule state_after_reachable[OF two_nodes_reachable _ schedule_succeeds])
     (auto simp add: two_nodes_length rts_of_node1_def busy_then_free_def)

subsection \<open>Bounds of the retry counters (C4)\<close>

text \<open>
  C4. In every reachable state and for every node, with a non-negative configured
  \<^verbatim>\<open>n_retry\<close>: \<^verbatim>\<open>node.n_retry\<close> lies between 0 and the configured maximum; when the
  configured \<^verbatim>\<open>n_retry_rts\<close> is positive, \<^verbatim>\<open>node.n_retry_rts\<close> lies between 0 and it; when
  it is negative, \<^verbatim>\<open>node.n_retry_rts\<close> is 1, the value it is initialised to, so that no
  step has decremented it. The states are those between two blocks of \<^verbatim>\<open>transmit\<close>; a
  block assigns each counter at most once.
\<close>

theorem retry_counters_bounded:
  assumes "reachable g s" and "0 \<le> cfg_n_retry g" and "j < length (nodes s)"
  shows "0 \<le> n_retry (nodes s ! j) \<and> n_retry (nodes s ! j) \<le> cfg_n_retry g
         \<and> (0 < cfg_n_retry_rts g \<longrightarrow>
              0 \<le> n_retry_rts (nodes s ! j) \<and> n_retry_rts (nodes s ! j) \<le> cfg_n_retry_rts g)
         \<and> (cfg_n_retry_rts g < 0 \<longrightarrow> n_retry_rts (nodes s ! j) = 1)"
  using reachable_retry_inv[OF assms(1,2)] assms(3)
  by (auto simp add: retry_inv_def retry_ok_def retry_view_def)

theorem retry_counters_bounded_witness:
  "reachable default_config
     (state_after default_config (rts_of_node1 @ busy_then_free) two_nodes)
   \<and> 0 \<le> cfg_n_retry default_config
   \<and> 0 < length (nodes (state_after default_config (rts_of_node1 @ busy_then_free) two_nodes))
   \<and> n_retry (nodes (state_after default_config (rts_of_node1 @ busy_then_free) two_nodes) ! 0)
       = 39
   \<and> 0 \<le> n_retry_rts
            (nodes (state_after default_config (rts_of_node1 @ busy_then_free) two_nodes) ! 0)
   \<and> n_retry_rts (nodes (state_after default_config (rts_of_node1 @ busy_then_free) two_nodes) ! 0)
       \<le> cfg_n_retry_rts default_config"
proof -
  let ?s = "state_after default_config (rts_of_node1 @ busy_then_free) two_nodes"
  have c: "0 \<le> cfg_n_retry default_config" "0 < cfg_n_retry_rts default_config"
    by (simp_all add: default_config_def)
  have l: "0 < length (nodes ?s)" by code_simp
  have v: "n_retry (nodes ?s ! 0) = 39" by code_simp
  show ?thesis
    using schedule_reachable c l v retry_counters_bounded[OF schedule_reachable c(1) l]
    by simp
qed

text \<open>
  With a negative configured \<^verbatim>\<open>n_retry_rts\<close> the list \<^verbatim>\<open>retry_rts_bin\<close> is empty, and
  the first RTS raises \<^verbatim>\<open>IndexError\<close> at \<^verbatim>\<open>node.retry_rts_bin[n_retry_rts -
  node.n_retry_rts] += 1\<close>: the run ends there, with \<^verbatim>\<open>node.n_retry_rts\<close> still 1.
\<close>

lemma unlimited_rts_retries_raise:
  "succeeds (default_config\<lparr>cfg_n_retry_rts := - 1\<rparr>) (replicate 6 (0, quiet 2000))
     (initial (default_config\<lparr>cfg_n_retry_rts := - 1\<rparr>) [pkt0])
   \<and> failure (run (default_config\<lparr>cfg_n_retry_rts := - 1\<rparr>) (replicate 7 (0, quiet 2000))
                (initial (default_config\<lparr>cfg_n_retry_rts := - 1\<rparr>) [pkt0]))
       = Some IndexError"
  by code_simp

subsection \<open>The backoff exponent (C6)\<close>











subsection \<open>Packets in processing at the gateway (C9)\<close>

text \<open>The \<^verbatim>\<open>processed\<close> flags of all packets, and the count the base station takes of them.\<close>

definition procs :: "myNode list \<Rightarrow> int list" where
  "procs ns = map (\<lambda>n. processed (packet n)) ns"

definition count_on :: "int list \<Rightarrow> nat list \<Rightarrow> int" where
  "count_on ps bs = int (length (filter (\<lambda>k. ps ! k = 1) bs))"

lemma procs_length [simp]: "length (procs ns) = length ns"
  by (simp add: procs_def)

lemma processing_procs:
  "\<forall>k \<in> set bs. k < length ns \<Longrightarrow> processing ns bs = count_on (procs ns) bs"
proof -
  assume "\<forall>k \<in> set bs. k < length ns"
  then have "filter (\<lambda>k. processed (packet (ns ! k)) = 1) bs
           = filter (\<lambda>k. procs ns ! k = 1) bs"
    by (intro filter_cong) (simp_all add: procs_def)
  then show ?thesis by (simp add: processing_def count_on_def)
qed

lemma procs_update:
  "procs (ns[i := n]) = (procs ns)[i := processed (packet n)]"
  by (simp add: procs_def map_update)

lemma procs_update_same:
  "processed (packet n) = processed (packet (ns ! i)) \<Longrightarrow> procs (ns[i := n]) = procs ns"
  unfolding procs_def by (rule map_update_same) simp

lemma procs_setters [simp]:
  "procs (set_collided i v ns) = procs ns"
  "procs (set_lost i b ns) = procs ns"
  "procs (set_addTime i t ns) = procs ns"
  by (simp_all add: set_collided_def set_lost_def set_addTime_def procs_update_same)

lemma procs_set_processed:
  "i < length ns \<Longrightarrow> procs (set_processed i v ns) = (procs ns)[i := v]"
  by (simp add: set_processed_def procs_update)

lemma procs_check_other:
  "check_other g t i k acc = Inr acc' \<Longrightarrow> procs (snd acc') = procs (snd acc)"
  by (auto simp add: check_other_def Let_def bind_eq_Inr split: if_splits casualties.splits)

lemma procs_check_others:
  "check_others g t i ks acc = Inr acc' \<Longrightarrow> procs (snd acc') = procs (snd acc)"
proof (induction ks arbitrary: acc)
  case Nil
  then show ?case by simp
next
  case (Cons k ks)
  from Cons.prems obtain a1 where
    a: "check_other g t i k acc = Inr a1" and b: "check_others g t i ks a1 = Inr acc'"
    by (auto simp add: bind_eq_Inr)
  show ?case using Cons.IH[OF b] procs_check_other[OF a] by simp
qed

lemma procs_cancel_for [simp]: "procs (cancel_for k ns) = procs ns"
  by (simp add: procs_def cancel_for_def comp_def)

lemma procs_cancel_all [simp]: "procs (cancel_all bs ns) = procs ns"
  unfolding cancel_all_def by (induction bs arbitrary: ns) simp_all

lemma packet_mark_received [simp]: "packet (mark_received g t pk n) = packet n"
  by (simp add: mark_received_def Let_def)

lemma procs_mark_received [simp]: "procs (map (mark_received g t pk) ns) = procs ns"
  by (simp add: procs_def comp_def)

lemma procs_checkcollision:
  assumes "checkcollision g t i ns bs = Inr r" and "i < length ns"
  shows "procs (snd r) = (procs ns)[i := (if processing ns bs > maxBSReceives then 0 else 1)]"
proof -
  let ?v = "if processing ns bs > maxBSReceives then 0 else 1 :: int"
  have adm: "procs (admit i ns bs) = (procs ns)[i := ?v]"
    using assms(2) by (simp add: admit_def procs_set_processed)
  from assms(1) obtain e where
    ev: "evaluate_arrival g t i ns bs = Inr e" and
    fin: "procs (snd r) = procs (snd e)"
    by (auto simp add: checkcollision_def Let_def bind_eq_Inr split: if_splits)
  have "procs (snd e) = procs (admit i ns bs)"
    using ev
    by (auto simp add: evaluate_arrival_def Let_def bind_eq_Inr
        dest!: procs_check_others split: if_splits)
  then show ?thesis using fin adm by simp
qed

text \<open>The blocks of \<^verbatim>\<open>transmit\<close> leave \<^verbatim>\<open>packet.processed\<close> alone.\<close>

lemma packet_count_cca [simp]:
  "packet (count_cca en brts bdata n) = packet n"
  "packet (count_cca_p1 g brts bdata n) = packet n"
  by (simp_all add: count_cca_def count_cca_p1_def Let_def)

lemma packet_grow_BE [simp]: "packet (grow_BE g n) = packet n"
  by (simp add: grow_BE_def)

lemma packet_draw_backoff: "draw_backoff g d n = Inr m \<Longrightarrow> packet m = packet n"
  by (auto simp add: draw_backoff_def bind_eq_Inr split: if_splits)

lemma processed_retype:
  "retype g t n = Inr m \<Longrightarrow> processed (packet m) = processed (packet n)"
  by (auto simp add: retype_def setPacketType_def Let_def bind_eq_Inr split: if_splits)

lemma processed_blk_want_transmit:
  assumes "blk_want_transmit g d brts bdata n = Inr m"
  shows "processed (packet m) = processed (packet n)"
proof (cases "ca_state n = want_transmit \<and> ptype (packet n) = dataPacketType")
  case False
  then show ?thesis using assms by (auto simp add: blk_want_transmit_def)
next
  case guard: True
  show ?thesis
  proof (cases "n_retry n = 0")
    case True
    then show ?thesis using assms guard by (auto simp add: blk_want_transmit_def)
  next
    case False
    let ?n1 = "(if cca n then n\<lparr>cca := False\<rparr>
                else if nav n \<noteq> 0 then
                  (if W2afterNAV g \<noteq> cfg_W2 g then n\<lparr>nav := 0, W2 := W2afterNAV g\<rparr>
                   else n\<lparr>nav := 0, W2 := cfg_W2 g\<rparr>)
                else n\<lparr>want_transmit_time := clock d\<rparr>)"
    let ?n2 = "count_cca_p1 g brts bdata ?n1"
    have "packet ?n2 = packet ?n1" by (simp only: packet_count_cca)
    also have "\<dots> = packet n" by simp
    finally have p2: "packet ?n2 = packet n" .
    show ?thesis
    proof (cases "channel_find_busy g d (check_busy g) brts bdata")
      case True
      from assms guard False True obtain n3 where
        b: "draw_backoff g d ?n2 = Inr n3" and
        m: "m = (grow_BE g (n3\<lparr>cca := True\<rparr>))\<lparr>n_retry := n_retry (grow_BE g (n3\<lparr>cca := True\<rparr>)) - 1\<rparr>"
        by (auto simp add: blk_want_transmit_def Let_def bind_eq_Inr)
      have "packet m = packet n3" by (simp add: m)
      then show ?thesis using packet_draw_backoff[OF b] p2 by simp
    next
      case free: False
      from assms guard False free obtain r where
        m: "retype g rtsPacketType (?n2\<lparr>my_P := r, ca_state := start_CA\<rparr>) = Inr m"
        by (auto simp add: blk_want_transmit_def Let_def bind_eq_Inr)
      have "packet (?n2\<lparr>my_P := r, ca_state := start_CA\<rparr>) = packet ?n2" by simp
      then show ?thesis using processed_retype[OF m] p2 by simp
    qed
  qed
qed

lemma processed_blocks:
  "blk_start_CA g d n = Inr m \<Longrightarrow> processed (packet m) = processed (packet n)"
  "blk_phase1_listen g d n = Inr m \<Longrightarrow> processed (packet m) = processed (packet n)"
  "blk_listen_rts g d cs n = Inr m \<Longrightarrow> processed (packet m) = processed (packet n)"
  "blk_phase2_rts g d n = Inr m \<Longrightarrow> processed (packet m) = processed (packet n)"
  "blk_phase2_listen g d n = Inr m \<Longrightarrow> processed (packet m) = processed (packet n)"
  by (auto simp add: blk_start_CA_def blk_phase1_listen_def blk_listen_rts_def
      blk_phase2_rts_def blk_phase2_listen_def bind_eq_Inr split: if_splits)

lemma processed_blk_phase3_backoff:
  "blk_phase3_backoff g n = Inr m \<Longrightarrow> processed (packet m) = processed (packet n)"
  by (auto simp add: blk_phase3_backoff_def dest!: processed_retype split: if_splits)

lemma processed_blk_start_nav:
  "blk_start_nav g n = Inr m \<Longrightarrow> processed (packet m) = processed (packet n)"
  by (auto simp add: blk_start_nav_def bind_eq_Inr dest!: processed_retype split: if_splits)

lemma packet_rts_cca_round:
  assumes "rts_cca_round g d brts bdata n = Inr r"
  shows "packet (snd r) = packet n"
proof (cases "n_retry_rts n \<noteq> 0 \<and> channel_find_busy g d (check_busy_rts g) brts bdata")
  case False
  then show ?thesis using assms
    by (auto simp add: rts_cca_round_def Let_def split: if_splits)
next
  case True
  let ?n1 = "count_cca (check_busy_rts g) brts bdata n"
  from assms True obtain n2 where
    b: "draw_backoff g d ?n1 = Inr n2" and
    r: "r = (True, if cfg_n_retry_rts g > 0
                   then (grow_BE g n2)\<lparr>n_retry_rts := n_retry_rts (grow_BE g n2) - 1\<rparr>
                   else grow_BE g n2)"
    by (auto simp add: rts_cca_round_def Let_def bind_eq_Inr)
  have "packet (snd r) = packet n2" by (simp add: r)
  then show ?thesis using packet_draw_backoff[OF b] by simp
qed

lemma packet_noca_cca_round:
  assumes "noca_cca_round g d bdata n = Inr r"
  shows "packet (snd r) = packet n"
proof (cases "n_retry n \<noteq> 0 \<and> check_busy g \<and> bdata \<and> cca_detects g d")
  case False
  then show ?thesis using assms
    by (auto simp add: noca_cca_round_def Let_def split: if_splits)
next
  case True
  let ?n1 = "(let m = n\<lparr>n_cca := n_cca n + 1\<rparr>
              in if bdata then m\<lparr>n_busy_data := n_busy_data m + 1\<rparr> else m)"
  from assms True obtain n2 where
    b: "draw_backoff g d ?n1 = Inr n2" and
    r: "r = (True, (grow_BE g n2)\<lparr>n_retry := n_retry (grow_BE g n2) - 1\<rparr>)"
    by (auto simp add: noca_cca_round_def Let_def bind_eq_Inr split: if_splits)
  have "packet (snd r) = packet n2" by (simp add: r)
  moreover have "packet ?n1 = packet n" by (simp add: Let_def)
  ultimately show ?thesis using packet_draw_backoff[OF b] by simp
qed

text \<open>
  What a step of node \<open>i\<close> does to the packets on the air and their \<^verbatim>\<open>processed\<close>
  flags: nothing, or the node's packet arrives (its flag is set by the demodulator check
  and the node is appended), or it leaves (the flag is cleared and the node removed).
\<close>

definition gateway_move :: "nat \<Rightarrow> sim \<Rightarrow> sim \<Rightarrow> bool" where
  "gateway_move i s s' \<longleftrightarrow>
    procs (nodes s') = procs (nodes s) \<and> packetsAtBS s' = packetsAtBS s
    \<or> i \<notin> set (packetsAtBS s) \<and> packetsAtBS s' = packetsAtBS s @ [i]
       \<and> procs (nodes s') =
           (procs (nodes s))[i := (if processing (nodes s) (packetsAtBS s) > maxBSReceives
                                   then 0 else 1)]
    \<or> procs (nodes s') = (procs (nodes s))[i := 0]
       \<and> packetsAtBS s' = (if i \<in> set (packetsAtBS s) then remove1 i (packetsAtBS s)
                            else packetsAtBS s)"

lemma processed_nth_update:
  "processed (packet n) = processed (packet (ns ! i)) \<Longrightarrow>
   processed (packet (ns[i := n] ! k)) = processed (packet (ns ! k))"
  by (cases "i < length ns") (simp_all add: nth_list_update list_update_beyond)

lemma processing_update_same:
  "processed (packet n) = processed (packet (ns ! i)) \<Longrightarrow>
   processing (ns[i := n]) bs = processing ns bs"
  by (simp add: processing_def processed_nth_update)

lemma processing_set_lost [simp]: "processing (set_lost i b ns) bs = processing ns bs"
  by (simp add: set_lost_def processing_update_same)

lemma gateway_move_put:
  assumes "processed (packet m) = processed (packet (nodes s ! i))"
    and "gateway_move i (put i m l s) s1"
    and "procs (nodes s') = procs (nodes s1)" and "packetsAtBS s' = packetsAtBS s1"
  shows "gateway_move i s s'"
proof -
  have "procs (nodes (put i m l s)) = procs (nodes s)"
    using assms(1) by (simp add: put_def procs_update_same)
  moreover have "packetsAtBS (put i m l s) = packetsAtBS s" by (simp add: put_def)
  moreover have "processing (nodes (put i m l s)) (packetsAtBS s)
                 = processing (nodes s) (packetsAtBS s)"
    using assms(1) by (simp add: put_def processing_update_same)
  ultimately have "gateway_move i s s1"
    using assms(2) unfolding gateway_move_def by metis
  then show ?thesis unfolding gateway_move_def assms(3,4) .
qed

lemma gateway_move_same:
  "procs (nodes s') = procs (nodes s) \<Longrightarrow> packetsAtBS s' = packetsAtBS s
   \<Longrightarrow> gateway_move i s s'"
  by (simp add: gateway_move_def)

lemma arrive_move:
  assumes "arrive g fr t i s = Inr s2" and "i < length (nodes s)"
  shows "gateway_move i s s2"
proof (cases "i \<in> set (packetsAtBS s)")
  case True
  then show ?thesis using assms(1) by (simp add: arrive_def gateway_move_def)
next
  case False
  from assms(1) False obtain sens where
    k: "(if rssi (packet (nodes s ! i)) < sens then
           Inr (s\<lparr>nodes := set_lost i True (nodes s)\<rparr>)
         else
           bind (checkcollision g t i (set_lost i False (nodes s)) (packetsAtBS s)) (\<lambda>r.
             let ns1 = (if fr then set_collided i (if fst r = 1 then 1 else 0) (snd r)
                        else snd r)
             in Inr (s\<lparr>nodes := set_addTime i t ns1, packetsAtBS := packetsAtBS s @ [i]\<rparr>)))
        = Inr s2"
    by (auto simp add: arrive_def bind_eq_Inr)
  show ?thesis
  proof (cases "rssi (packet (nodes s ! i)) < sens")
    case True
    then show ?thesis using k by (auto simp add: gateway_move_def)
  next
    case heard: False
    from k heard obtain r where
      c: "checkcollision g t i (set_lost i False (nodes s)) (packetsAtBS s) = Inr r" and
      s2: "s2 = s\<lparr>nodes := set_addTime i t
                     (if fr then set_collided i (if fst r = 1 then 1 else 0) (snd r) else snd r),
                   packetsAtBS := packetsAtBS s @ [i]\<rparr>"
      by (auto simp add: bind_eq_Inr Let_def)
    have il: "i < length (set_lost i False (nodes s))" using assms(2) by (simp add: set_lost_def)
    have "procs (nodes s2) = procs (snd r)" by (simp add: s2)
    also have "\<dots> = (procs (nodes s))[i := (if processing (nodes s) (packetsAtBS s)
                                                  > maxBSReceives then 0 else 1)]"
      using procs_checkcollision[OF c il] by simp
    finally show ?thesis using False by (simp add: gateway_move_def s2)
  qed
qed

lemma leave_move:
  "procs (nodes (leave i s)) = (procs (nodes s))[i := 0]
   \<and> packetsAtBS (leave i s) = (if i \<in> set (packetsAtBS s) then remove1 i (packetsAtBS s)
                                 else packetsAtBS s)"
  by (simp add: leave_def procs_update)

lemma run_block_gateway:
  assumes "run_block f l i s = Inr s'"
    and "\<And>m. f (nodes s ! i) = Inr m \<Longrightarrow> processed (packet m) = processed (packet (nodes s ! i))"
  shows "gateway_move i s s'"
proof -
  from assms(1) obtain m where m: "f (nodes s ! i) = Inr m" and s': "s' = put i m l s"
    by (auto simp add: run_block_def bind_eq_Inr)
  show ?thesis
    using assms(2)[OF m] by (simp add: s' put_def gateway_move_def procs_update_same)
qed

lemma count_processed_fields [simp]:
  "nodes (count_processed i s) = nodes s"
  "packetsAtBS (count_processed i s) = packetsAtBS s"
  by (simp_all add: count_processed_def)

lemma send_gateway:
  assumes a: "arrive g fr t i (put i m l s) = Inr s2"
    and p: "processed (packet m) = processed (packet (nodes s ! i))"
    and i: "i < length (nodes s)"
    and n: "nodes s' = nodes s2" and b: "packetsAtBS s' = packetsAtBS s2"
  shows "gateway_move i s s'"
proof -
  have "i < length (nodes (put i m l s))" using i by (simp add: put_def)
  then have mv: "gateway_move i (put i m l s) s2" by (rule arrive_move[OF a])
  have pr: "procs (nodes s') = procs (nodes s2)" using n by simp
  show ?thesis by (rule gateway_move_put[OF p mv pr b])
qed

lemma rts_send_gateway:
  assumes "rts_send g d i s = Inr s'" and "i < length (nodes s)"
  shows "gateway_move i s s'"
proof -
  let ?n = "nodes s ! i"
  from assms(1) obtain bin s2 where
    a: "arrive g False (clock d) i
          (put i (?n\<lparr>n_rts_sent := n_rts_sent ?n + 1, retry_rts_bin := bin\<rparr>) Rts_on_air s)
        = Inr s2" and
    s': "s' = s2\<lparr>channel_busy_rts := True\<rparr>"
    by (auto simp add: rts_send_def Let_def bind_eq_Inr)
  show ?thesis by (rule send_gateway[OF a _ assms(2)]) (simp_all add: s')
qed

lemma noca_send_gateway:
  assumes "noca_send g d i s = Inr s'" and "i < length (nodes s)"
  shows "gateway_move i s s'"
proof (cases "n_retry (nodes s ! i) = 0")
  case True
  then have "s' = put i ((nodes s ! i)\<lparr>n_aborted := n_aborted (nodes s ! i) + 1,
                 n_retry := cfg_n_retry g, Wbusy_BE := cfg_Wbusy_BE g\<rparr>) Loop_end s"
    using assms(1) by (simp add: noca_send_def Let_def)
  then show ?thesis by (simp add: put_def gateway_move_def procs_update_same)
next
  case False
  let ?n = "nodes s ! i"
  from assms(1) False obtain bin s2 where
    a: "arrive g True (clock d) i
          (put i (?n\<lparr>n_data_sent := n_data_sent ?n + 1, retry_bin := bin\<rparr>) NoCA_on_air s)
        = Inr s2" and
    s': "s' = s2\<lparr>channel_busy_data := True\<rparr>"
    by (auto simp add: noca_send_def Let_def bind_eq_Inr)
  show ?thesis by (rule send_gateway[OF a _ assms(2)]) (simp_all add: s')
qed

lemma phase3_transmit_gateway:
  assumes "phase3_transmit g d i s = Inr s'" and "i < length (nodes s)"
  shows "gateway_move i s s'"
proof (cases "ca_state (nodes s ! i) = start_phase3_transmit
              \<and> ptype (packet (nodes s ! i)) = dataPacketType")
  case False
  then have "s' = goto i At_start_nav s"
    using assms(1) by (auto simp add: phase3_transmit_def Let_def)
  then show ?thesis by (simp add: goto_def gateway_move_def)
next
  case guard: True
  let ?n1 = "count_cca (check_busy g) (channel_busy_rts s) (channel_busy_data s) (nodes s ! i)"
  have p1: "packet ?n1 = packet (nodes s ! i)" by (simp only: packet_count_cca)
  show ?thesis
  proof (cases "channel_find_busy g d (check_busy g) (channel_busy_rts s) (channel_busy_data s)")
    case True
    then have "s' = put i (?n1\<lparr>cca := True, n_retry := n_retry ?n1 - 1,
                                  ca_state := want_transmit\<rparr>) At_start_nav s"
      using assms(1) guard by (simp add: phase3_transmit_def Let_def)
    then show ?thesis using p1 by (simp add: put_def gateway_move_def procs_update_same)
  next
    case False
    from assms(1) guard False obtain bin s2 where
      a: "arrive g False (clock d) i
            (put i (?n1\<lparr>n_data_sent := n_data_sent ?n1 + 1, retry_bin := bin\<rparr>) Data_on_air s)
          = Inr s2" and
      s': "s' = s2\<lparr>channel_busy_data := True\<rparr>"
      by (auto simp add: phase3_transmit_def Let_def bind_eq_Inr)
    show ?thesis by (rule send_gateway[OF a _ assms(2)]) (simp_all add: s' p1)
  qed
qed

lemma end_gateway:
  assumes "s1 = leave i (count_processed i s0)"
    and "nodes s0 = nodes s" and "packetsAtBS s0 = packetsAtBS s"
    and "s' = put i m l s1" and "packet m = packet (nodes s1 ! i)"
  shows "gateway_move i s s'"
proof -
  have "procs (nodes s') = procs (nodes s1)"
    using assms(4,5) by (simp add: put_def procs_update_same)
  moreover have "packetsAtBS s' = packetsAtBS s1" using assms(4) by (simp add: put_def)
  moreover have "procs (nodes s1) = (procs (nodes s))[i := 0]"
    using assms(1,2) by (simp add: leave_move)
  moreover have "packetsAtBS s1 = (if i \<in> set (packetsAtBS s) then remove1 i (packetsAtBS s)
                                   else packetsAtBS s)"
    using assms(1,3) by (simp add: leave_move)
  ultimately show ?thesis by (simp add: gateway_move_def)
qed

lemma data_end_gateway: "gateway_move i s (data_end g i s)"
proof -
  let ?s1 = "leave i (count_processed i (s\<lparr>channel_busy_data := False\<rparr>))"
  let ?m = "(nodes ?s1 ! i)\<lparr>n_retry := cfg_n_retry g, cca := False, nav := 0,
                             ca_state := schedule_tx\<rparr>"
  show ?thesis
    by (rule end_gateway[where ?s0.0 = "s\<lparr>channel_busy_data := False\<rparr>"
          and ?s1.0 = ?s1 and m = ?m and l = At_start_nav])
       (simp_all add: data_end_def Let_def)
qed

lemma noca_end_gateway: "gateway_move i s (noca_end g i s)"
proof -
  let ?s1 = "leave i (count_processed i (s\<lparr>channel_busy_data := False\<rparr>))"
  let ?m = "(nodes ?s1 ! i)\<lparr>n_retry := cfg_n_retry g, Wbusy_BE := cfg_Wbusy_BE g\<rparr>"
  show ?thesis
    by (rule end_gateway[where ?s0.0 = "s\<lparr>channel_busy_data := False\<rparr>"
          and ?s1.0 = ?s1 and m = ?m and l = Loop_end])
       (simp_all add: noca_end_def Let_def)
qed

lemma rts_end_gateway: "gateway_move i s (rts_end i s)"
  by (simp add: rts_end_def goto_def gateway_move_def leave_move)

lemma put_gateway:
  "processed (packet m) = processed (packet (nodes s ! i)) \<Longrightarrow> gateway_move i s (put i m l s)"
  by (simp add: put_def gateway_move_def procs_update_same)

lemma goto_gateway: "gateway_move i s (goto i l s)"
  by (simp add: goto_def gateway_move_def)

lemma transmit_step_gateway:
  assumes st: "transmit_step g d i s = Inr s'" and i: "i < length (nodes s)"
  shows "gateway_move i s s'"
proof (cases "pcs s i")
  case Loop_top
  then have "s' = put i (blk_schedule_tx (nodes s ! i)) At_want_transmit s
           \<or> s' = put i ((nodes s ! i)\<lparr>cycle := cycle (nodes s ! i) + 1\<rparr>) NoCA_wake s"
    using st by (auto simp add: transmit_step_def Let_def split: if_splits)
  then show ?thesis by (auto simp add: blk_schedule_tx_def intro!: put_gateway)
next
  case At_want_transmit
  then have "run_block (blk_want_transmit g d (channel_busy_rts s) (channel_busy_data s)) At_start_CA i s = Inr s'"
    using st by (simp add: transmit_step_def Let_def)
  then show ?thesis by (rule run_block_gateway) (rule processed_blk_want_transmit)
next
  case At_start_CA
  then have "run_block (blk_start_CA g d) At_phase1_listen i s = Inr s'"
    using st by (simp add: transmit_step_def Let_def)
  then show ?thesis by (rule run_block_gateway) (rule processed_blocks(1))
next
  case At_phase1_listen
  then have "run_block (blk_phase1_listen g d) At_phase1_rts i s = Inr s'"
    using st by (simp add: transmit_step_def Let_def)
  then show ?thesis by (rule run_block_gateway) (rule processed_blocks(2))
next
  case At_phase1_rts
  then have "run_block (blk_listen_rts g d start_phase1_listen) At_phase2_backoff i s = Inr s'"
    using st by (simp add: transmit_step_def Let_def)
  then show ?thesis by (rule run_block_gateway) (rule processed_blocks(3))
next
  case At_phase2_backoff
  then have "s' = put i (blk_phase2_backoff g (nodes s ! i)) Rts_cca s
           \<or> s' = goto i At_phase2_rts s"
    using st by (auto simp add: transmit_step_def Let_def split: if_splits)
  then show ?thesis
    by (auto simp add: blk_phase2_backoff_def Let_def intro!: put_gateway goto_gateway)
next
  case Rts_cca
  from st Rts_cca obtain r where
    r: "rts_cca_round g d (channel_busy_rts s) (channel_busy_data s) (nodes s ! i) = Inr r" and
    k: "(if fst r then Inr (put i (snd r) Rts_cca s)
         else rts_send g d i (put i (snd r) Rts_cca s)) = Inr s'"
    by (auto simp add: transmit_step_def Let_def bind_eq_Inr)
  have p: "processed (packet (snd r)) = processed (packet (nodes s ! i))"
    using packet_rts_cca_round[OF r] by simp
  show ?thesis
  proof (cases "fst r")
    case True
    then show ?thesis using k p by (auto intro!: put_gateway)
  next
    case False
    then have "rts_send g d i (put i (snd r) Rts_cca s) = Inr s'" using k by simp
    from rts_send_gateway[OF this] i
    have mv: "gateway_move i (put i (snd r) Rts_cca s) s'" by (simp add: put_def)
    show ?thesis by (rule gateway_move_put[OF p mv refl refl])
  qed
next
  case Rts_on_air
  then have "s' = rts_end i s" using st by (simp add: transmit_step_def Let_def)
  then show ?thesis by (simp add: rts_end_gateway)
next
  case At_phase2_rts
  then have "run_block (blk_phase2_rts g d) At_phase2_listen i s = Inr s'"
    using st by (simp add: transmit_step_def Let_def)
  then show ?thesis by (rule run_block_gateway) (rule processed_blocks(4))
next
  case At_phase2_listen
  then have "run_block (blk_phase2_listen g d) At_phase2_listen_rts i s = Inr s'"
    using st by (simp add: transmit_step_def Let_def)
  then show ?thesis by (rule run_block_gateway) (rule processed_blocks(5))
next
  case At_phase2_listen_rts
  then have "run_block (blk_listen_rts g d start_phase2_listen) At_phase3_backoff i s = Inr s'"
    using st by (simp add: transmit_step_def Let_def)
  then show ?thesis by (rule run_block_gateway) (rule processed_blocks(3))
next
  case At_phase3_backoff
  then have "run_block (blk_phase3_backoff g) At_phase3_transmit i s = Inr s'"
    using st by (simp add: transmit_step_def Let_def)
  then show ?thesis by (rule run_block_gateway) (rule processed_blk_phase3_backoff)
next
  case At_phase3_transmit
  then have "phase3_transmit g d i s = Inr s'"
    using st by (simp add: transmit_step_def Let_def)
  then show ?thesis using i by (rule phase3_transmit_gateway)
next
  case Data_on_air
  then have "s' = data_end g i s" using st by (simp add: transmit_step_def Let_def)
  then show ?thesis by (simp add: data_end_gateway)
next
  case At_start_nav
  then have "run_block (blk_start_nav g) Loop_end i s = Inr s'"
    using st by (simp add: transmit_step_def Let_def)
  then show ?thesis by (rule run_block_gateway) (rule processed_blk_start_nav)
next
  case Loop_end
  then have "s' = goto i Finished s \<or> s' = goto i Loop_top s"
    using st by (auto simp add: transmit_step_def Let_def split: if_splits)
  then show ?thesis by (auto simp add: goto_gateway)
next
  case NoCA_wake
  then have "s' = put i ((nodes s ! i)\<lparr>want_transmit_time := clock d\<rparr>) NoCA_cca s"
    using st by (simp add: transmit_step_def Let_def)
  then show ?thesis by (simp add: put_gateway)
next
  case NoCA_cca
  from st NoCA_cca obtain r where
    r: "noca_cca_round g d (channel_busy_data s) (nodes s ! i) = Inr r" and
    k: "(if fst r then Inr (put i (snd r) NoCA_cca s)
         else noca_send g d i (put i (snd r) NoCA_cca s)) = Inr s'"
    by (auto simp add: transmit_step_def Let_def bind_eq_Inr)
  have p: "processed (packet (snd r)) = processed (packet (nodes s ! i))"
    using packet_noca_cca_round[OF r] by simp
  show ?thesis
  proof (cases "fst r")
    case True
    then show ?thesis using k p by (auto intro!: put_gateway)
  next
    case False
    then have "noca_send g d i (put i (snd r) NoCA_cca s) = Inr s'" using k by simp
    from noca_send_gateway[OF this] i
    have mv: "gateway_move i (put i (snd r) NoCA_cca s) s'" by (simp add: put_def)
    show ?thesis by (rule gateway_move_put[OF p mv refl refl])
  qed
next
  case NoCA_on_air
  then have "s' = noca_end g i s" using st by (simp add: transmit_step_def Let_def)
  then show ?thesis by (simp add: noca_end_gateway)
next
  case Finished
  then have "s' = s" using st by (simp add: transmit_step_def Let_def)
  then show ?thesis by (simp add: gateway_move_def)
qed

text \<open>
  The state of the base station that the count depends on: node references are valid and
  distinct, and at most \<open>maxBSReceives + 1\<close> packets on the air carry \<^verbatim>\<open>processed = 1\<close>.
\<close>

definition gateway_inv :: "sim \<Rightarrow> bool" where
  "gateway_inv s \<longleftrightarrow>
    (\<forall>k \<in> set (packetsAtBS s). k < length (nodes s))
    \<and> processing (nodes s) (packetsAtBS s) \<le> maxBSReceives + 1"

lemma count_on_append:
  "count_on ps (bs @ [i]) = count_on ps bs + (if ps ! i = 1 then 1 else 0)"
  by (simp add: count_on_def)

lemma count_on_update_other:
  "i \<notin> set bs \<Longrightarrow> count_on (ps[i := v]) bs = count_on ps bs"
proof -
  assume "i \<notin> set bs"
  then have "\<And>k. k \<in> set bs \<Longrightarrow> ps[i := v] ! k = ps ! k"
    by (metis nth_list_update_neq)
  then have "filter (\<lambda>k. ps[i := v] ! k = 1) bs = filter (\<lambda>k. ps ! k = 1) bs"
    by (intro filter_cong) simp_all
  then show ?thesis by (simp add: count_on_def)
qed

lemma count_on_clear_le: "count_on (ps[i := 0]) bs \<le> count_on ps bs"
proof -
  have "length (filter (\<lambda>k. ps[i := 0] ! k = 1) bs) \<le> length (filter (\<lambda>k. ps ! k = 1) bs)"
  proof (induction bs)
    case Nil
    then show ?case by simp
  next
    case (Cons b bs)
    have "ps[i := 0] ! b = 1 \<Longrightarrow> ps ! b = 1"
      by (cases "i < length ps")
         (auto simp add: nth_list_update list_update_beyond split: if_splits)
    then show ?case using Cons by auto
  qed
  then show ?thesis by (simp add: count_on_def)
qed

lemma count_on_remove1_le: "count_on ps (remove1 i bs) \<le> count_on ps bs"
proof -
  have "length (filter (\<lambda>k. ps ! k = 1) (remove1 i bs)) \<le> length (filter (\<lambda>k. ps ! k = 1) bs)"
    by (induction bs) auto
  then show ?thesis by (simp add: count_on_def)
qed

lemma gateway_move_inv:
  assumes mv: "gateway_move i s s'" and inv: "gateway_inv s"
    and i: "i < length (nodes s)" and len: "length (nodes s') = length (nodes s)"
  shows "gateway_inv s'"
proof -
  let ?bs = "packetsAtBS s" and ?ps = "procs (nodes s)"
  have refs: "\<forall>k \<in> set ?bs. k < length (nodes s)" using inv by (simp add: gateway_inv_def)
  have cnt: "count_on ?ps ?bs \<le> maxBSReceives + 1"
    using inv processing_procs[OF refs] by (simp add: gateway_inv_def)
  have pc: "processing (nodes s) ?bs = count_on ?ps ?bs" by (rule processing_procs[OF refs])
  from mv consider
    (same) "procs (nodes s') = ?ps" "packetsAtBS s' = ?bs"
  | (arrival) "i \<notin> set ?bs" "packetsAtBS s' = ?bs @ [i]"
       "procs (nodes s') = ?ps[i := (if processing (nodes s) ?bs > maxBSReceives then 0 else 1)]"
  | (departure) "procs (nodes s') = ?ps[i := 0]"
       "packetsAtBS s' = (if i \<in> set ?bs then remove1 i ?bs else ?bs)"
    unfolding gateway_move_def by blast
  then have "(\<forall>k \<in> set (packetsAtBS s'). k < length (nodes s))
             \<and> count_on (procs (nodes s')) (packetsAtBS s') \<le> maxBSReceives + 1"
  proof cases
    case same
    then show ?thesis using refs cnt by simp
  next
    case arrival
    have il: "i < length ?ps" using i by simp
    show ?thesis
      using refs cnt i il arrival(1)
      by (simp add: arrival(2,3) count_on_append count_on_update_other pc)
  next
    case departure
    have "count_on (?ps[i := 0]) (packetsAtBS s') \<le> count_on (?ps[i := 0]) ?bs"
      by (simp add: departure(2) count_on_remove1_le)
    also have "\<dots> \<le> count_on ?ps ?bs" by (rule count_on_clear_le)
    finally have "count_on (procs (nodes s')) (packetsAtBS s') \<le> maxBSReceives + 1"
      using cnt by (simp add: departure(1))
    moreover have "set (packetsAtBS s') \<subseteq> set ?bs"
      using set_remove1_subset[of i ?bs] by (auto simp add: departure(2))
    ultimately show ?thesis using refs by auto
  qed
  then have r': "\<forall>k \<in> set (packetsAtBS s'). k < length (nodes s')"
    and c': "count_on (procs (nodes s')) (packetsAtBS s') \<le> maxBSReceives + 1"
    using len by simp_all
  show ?thesis using c' processing_procs[OF r'] r' by (simp add: gateway_inv_def)
qed

lemma gateway_inv_initial: "gateway_inv (initial g pks)"
  by (simp add: gateway_inv_def initial_def processing_def maxBSReceives_def)

lemma reachable_gateway_inv: "reachable g s \<Longrightarrow> gateway_inv s"
proof (induction rule: reachable.induct)
  case (start pks)
  show ?case by (rule gateway_inv_initial)
next
  case (step s i d s')
  show ?case
    using transmit_step_gateway[OF step.hyps(3,2)] step.IH step.hyps(2)
      transmit_step_moves(1)[OF step.hyps(3,2)]
    by (rule gateway_move_inv)
qed

text \<open>
  Ten nodes with the same packet parameters, without collision avoidance (the first
  command-line argument of the script): a node is on the air three steps after the top of
  its loop. The first nine start a transmission one after the other, each missing the
  busy channel at its carrier sense; then the tenth does the same.
\<close>

definition noca_config :: config where
  "noca_config = default_config\<lparr>CA := False\<rparr>"

definition ten_nodes :: sim where
  "ten_nodes = initial noca_config (map (\<lambda>k. pkt0\<lparr>p_nodeid := int k\<rparr>) [0..<10])"

definition nine_on_air :: "(nat \<times> draw) list" where
  "nine_on_air = concat (map (\<lambda>k. replicate 3 (k, quiet 2000)) [0..<9])"

definition tenth_arrives :: "(nat \<times> draw) list" where
  "tenth_arrives = replicate 3 (9, quiet 2000)"

text \<open>The count after a schedule, with the \<^verbatim>\<open>processed\<close> flags of the packets on the air.\<close>

definition count_after ::
  "config \<Rightarrow> (nat \<times> draw) list \<Rightarrow> sim \<Rightarrow> (int \<times> int list) option" where
  "count_after g xs s =
    (case run g xs s of
       Inr s' \<Rightarrow> Some (processing (nodes s') (packetsAtBS s'),
                        map (\<lambda>k. processed (packet (nodes s' ! k))) (packetsAtBS s'))
     | Inl e \<Rightarrow> None)"

lemma count_after_Some:
  assumes "count_after g xs s = Some (c, ps)"
  shows "succeeds g xs s"
    and "processing (nodes (state_after g xs s)) (packetsAtBS (state_after g xs s)) = c"
  using assms by (auto simp add: count_after_def succeeds_def state_after_def split: sum.splits)

lemma pkt0_init_any:
  "myPacket_init noca_config k 104 12 125 1 0 (- 100) = Inr (pkt0\<lparr>p_nodeid := k\<rparr>)"
  by (simp add: myPacket_init_def carrier_def noca_config_def default_config_def airtime_def
      Let_def pkt0_def)

lemma ten_nodes_reachable: "reachable noca_config ten_nodes"
  unfolding ten_nodes_def
proof (rule reachable.start)
  fix k assume "k < length (map (\<lambda>k. pkt0\<lparr>p_nodeid := int k\<rparr>) [0..<10])"
  then have "map (\<lambda>k. pkt0\<lparr>p_nodeid := int k\<rparr>) [0..<10] ! k = pkt0\<lparr>p_nodeid := int k\<rparr>"
    by (simp del: upt_Suc)
  then show "built noca_config k (map (\<lambda>k. pkt0\<lparr>p_nodeid := int k\<rparr>) [0..<10] ! k)"
    using builtI[OF pkt0_init_any[of "int k"]] by simp
qed

lemma ten_nodes_length: "length (nodes ten_nodes) = 10"
  by (simp add: ten_nodes_def initial_def)

lemma nine_on_air_count:
  "count_after noca_config nine_on_air ten_nodes = Some (9, replicate 9 1)"
  by code_simp

lemma tenth_count:
  "count_after noca_config (nine_on_air @ tenth_arrives) ten_nodes
   = Some (9, replicate 9 1 @ [0])"
  by code_simp

lemma nine_on_air_reachable:
  "reachable noca_config (state_after noca_config nine_on_air ten_nodes)"
  by (rule state_after_reachable[OF ten_nodes_reachable _ count_after_Some(1)[OF nine_on_air_count]])
     (auto simp add: ten_nodes_length nine_on_air_def)

lemma nine_on_air_full:
  "processing (nodes (state_after noca_config nine_on_air ten_nodes))
     (packetsAtBS (state_after noca_config nine_on_air ten_nodes)) = maxBSReceives + 1"
  using count_after_Some(2)[OF nine_on_air_count] by (simp add: maxBSReceives_def)

lemma processed_after_checkcollision:
  assumes "checkcollision g t i ns bs = Inr r" and "i < length ns"
  shows "processed (packet (snd r ! i)) = (if maxBSReceives < processing ns bs then 0 else 1)"
proof -
  have "length (procs (snd r)) = length ns"
    using procs_checkcollision[OF assms] by simp
  then have "i < length (snd r)" using assms(2) by simp
  then have "processed (packet (snd r ! i)) = procs (snd r) ! i" by (simp add: procs_def)
  then show ?thesis using procs_checkcollision[OF assms] assms(2) by simp
qed

text \<open>
  C9. In every reachable state the packets on the air with \<^verbatim>\<open>processed == 1\<close> number at
  most \<open>maxBSReceives + 1\<close>, which is 9. The check at the head of \<^verbatim>\<open>checkcollision\<close>,
  which runs before the arriving node is appended to \<^verbatim>\<open>packetsAtBS\<close>, sets the arriving
  packet's flag to 0 exactly when the count of the packets already there exceeds
  \<^verbatim>\<open>maxBSReceives\<close>, and to 1 otherwise. The bound is attained: after nine nodes have
  started to transmit, nine packets on the air are being processed.
\<close>

theorem processed_packets_bounded:
  assumes "reachable g s"
  shows "processing (nodes s) (packetsAtBS s) \<le> maxBSReceives + 1
         \<and> maxBSReceives + 1 = 9
         \<and> (\<forall>t i r. i < length (nodes s)
               \<longrightarrow> checkcollision g t i (nodes s) (packetsAtBS s) = Inr r
               \<longrightarrow> processed (packet (snd r ! i))
                     = (if maxBSReceives < processing (nodes s) (packetsAtBS s) then 0 else 1))
         \<and> reachable noca_config (state_after noca_config nine_on_air ten_nodes)
         \<and> processing (nodes (state_after noca_config nine_on_air ten_nodes))
              (packetsAtBS (state_after noca_config nine_on_air ten_nodes))
            = maxBSReceives + 1"
proof -
  have "processing (nodes s) (packetsAtBS s) \<le> maxBSReceives + 1"
    using reachable_gateway_inv[OF assms] by (simp add: gateway_inv_def)
  moreover have "maxBSReceives + 1 = 9" by (simp add: maxBSReceives_def)
  moreover have "\<forall>t i r. i < length (nodes s)
               \<longrightarrow> checkcollision g t i (nodes s) (packetsAtBS s) = Inr r
               \<longrightarrow> processed (packet (snd r ! i))
                     = (if maxBSReceives < processing (nodes s) (packetsAtBS s) then 0 else 1)"
    using processed_after_checkcollision by blast
  ultimately show ?thesis using nine_on_air_reachable nine_on_air_full by blast
qed

theorem processed_packets_bounded_witness:
  "reachable noca_config (state_after noca_config nine_on_air ten_nodes)
   \<and> processing (nodes (state_after noca_config nine_on_air ten_nodes))
        (packetsAtBS (state_after noca_config nine_on_air ten_nodes)) = 9
   \<and> 9 < length (nodes (state_after noca_config nine_on_air ten_nodes))
   \<and> (case checkcollision noca_config 2000 9
              (nodes (state_after noca_config nine_on_air ten_nodes))
              (packetsAtBS (state_after noca_config nine_on_air ten_nodes)) of
        Inr r \<Rightarrow> processed (packet (snd r ! 9)) = 0
      | Inl e \<Rightarrow> False)
   \<and> count_after noca_config (nine_on_air @ tenth_arrives) ten_nodes
       = Some (9, replicate 9 1 @ [0])"
proof -
  let ?s = "state_after noca_config nine_on_air ten_nodes"
  have l: "9 < length (nodes ?s)" by code_simp
  have c: "case checkcollision noca_config 2000 9 (nodes ?s) (packetsAtBS ?s) of
             Inr r \<Rightarrow> processed (packet (snd r ! 9)) = 0 | Inl e \<Rightarrow> False"
    by code_simp
  show ?thesis
    using processed_packets_bounded[OF nine_on_air_reachable] l c tenth_count
    by (simp add: maxBSReceives_def)
qed

subsection \<open>Frequency collision (C1)\<close>

text \<open>The carriers that the constructor can leave in \<^verbatim>\<open>freq\<close>.\<close>

definition carriers :: "config \<Rightarrow> int list" where
  "carriers g = (if lora24GHz g then [2403000000, 2425000000, 2479000000]
                 else [860000000, 864000000, 868000000])"

lemma choice_member: "xs \<noteq> [] \<Longrightarrow> choice xs k \<in> set xs"
  by (simp add: choice_def)

lemma carrier_member: "carrier g k \<in> set (carriers g)"
proof (cases "lora24GHz g")
  case True
  have "choice [2403000000, 2425000000, 2479000000 :: int] k
        \<in> set [2403000000, 2425000000, 2479000000]"
    by (rule choice_member) simp
  then show ?thesis using True by (simp add: carrier_def carriers_def)
next
  case False
  have "choice [860000000, 864000000, 868000000 :: int] k
        \<in> set [860000000, 864000000, 868000000]"
    by (rule choice_member) simp
  then show ?thesis using False by (simp add: carrier_def carriers_def)
qed


lemma myPacket_init_carrier:
  "myPacket_init g nid plen s b c k prx = Inr p \<Longrightarrow> freq p \<in> set (carriers g)"
  using carrier_member[of g k]
  by (auto simp add: myPacket_init_def Let_def bind_eq_Inr split: if_splits)

lemma setPacketType_freq: "setPacketType g t p = Inr q \<Longrightarrow> freq q = freq p"
  by (auto simp add: setPacketType_def Let_def bind_eq_Inr split: if_splits)

lemma packet_state_carrier: "packet_state g p \<Longrightarrow> freq p \<in> set (carriers g)"
  by (induction rule: packet_state.induct)
     (simp_all add: myPacket_init_carrier setPacketType_freq)






















subsection \<open>The busy flags of the channel (C10)\<close>



lemma arrive_pcs: "arrive g fr t i s = Inr s2 \<Longrightarrow> pcs s2 = pcs s"
  by (auto simp add: arrive_def bind_eq_Inr Let_def split: if_splits)








lemma leave_frame [simp]:
  "pcs (leave i s) = pcs s"
  "channel_busy_rts (leave i s) = channel_busy_rts s"
  "channel_busy_data (leave i s) = channel_busy_data s"
  by (simp_all add: leave_def)

lemma count_processed_frame [simp]:
  "pcs (count_processed i s) = pcs s"
  "channel_busy_rts (count_processed i s) = channel_busy_rts s"
  "channel_busy_data (count_processed i s) = channel_busy_data s"
  by (simp_all add: count_processed_def)




















end
